theory Spec2Isabelle
  imports Main
begin

section \<open>The record store (supabase/schema.sql)\<close>

text \<open>
  The table \<open>public.issues\<close>. A \<open>uuid\<close> is the text the client sees, a \<open>timestamptz\<close> is a
  point on a discrete clock. The column \<open>status\<close> is \<open>text\<close> in the schema (there is no enum and
  no check constraint), so it is a string here. A nullable column is an \<open>option\<close>.
  The field \<open>id\<close> is called \<open>issue_id\<close>, as \<open>id\<close> is the identity function of HOL.
\<close>

type_synonym uuid = string
type_synonym timestamptz = nat

record issue =
  issue_id :: uuid
  created_at :: timestamptz
  updated_at :: timestamptz
  source_url :: "string option"
  title :: string
  description :: "string option"
  manual_instructions :: "string option"
  status :: string
  pr_url :: "string option"
  error_message :: "string option"
  created_by :: "uuid option"
  approved_by :: "uuid option"
  approved_at :: "timestamptz option"
  claimed_by :: "string option"
  claimed_at :: "timestamptz option"

text \<open>
  The table is the list of its rows. The primary key says that the ids of the rows are
  distinct; \<open>insert_issue\<close> below refuses a duplicate id, as the unique index does.
\<close>

definition primary_key :: "issue list \<Rightarrow> bool" where
  "primary_key tbl = distinct (map issue_id tbl)"

text \<open>Trigger \<open>set_issues_updated_at\<close>: before every update of a row, \<open>updated_at = now()\<close>.\<close>

definition moddatetime :: "timestamptz \<Rightarrow> issue \<Rightarrow> issue" where
  "moddatetime now new = new\<lparr>updated_at := now\<rparr>"

text \<open>
  \<open>update public.issues set ... where ...\<close>: every row matching the condition is rewritten by
  the assignment and then by the trigger; \<open>returning *\<close> lists the rewritten rows. A function
  declared \<open>returns public.issues\<close> hands back the first of them, or null when there is none.
\<close>

definition sql_update :: "(issue \<Rightarrow> bool) \<Rightarrow> (issue \<Rightarrow> issue) \<Rightarrow> timestamptz \<Rightarrow> issue list \<Rightarrow> issue list" where
  "sql_update cond assign now tbl = map (\<lambda>r. if cond r then moddatetime now (assign r) else r) tbl"

definition sql_returning :: "(issue \<Rightarrow> bool) \<Rightarrow> (issue \<Rightarrow> issue) \<Rightarrow> timestamptz \<Rightarrow> issue list \<Rightarrow> issue list" where
  "sql_returning cond assign now tbl = map (\<lambda>r. moddatetime now (assign r)) (filter cond tbl)"

definition first_row :: "issue list \<Rightarrow> issue option" where
  "first_row rows = (case rows of [] \<Rightarrow> None | r # _ \<Rightarrow> Some r)"

text \<open>
  The subquery of \<open>claim_issue\<close>:
  \<open>select id from public.issues where status = 'approved' order by created_at
  for update skip locked limit 1\<close>, run with no other transaction holding a row lock. Rows of
  equal \<open>created_at\<close> keep their table order (\<open>sort_key\<close> is stable); SQL leaves that order
  open.
\<close>

definition claim_candidate :: "issue list \<Rightarrow> uuid option" where
  "claim_candidate tbl =
     (case sort_key created_at (filter (\<lambda>r. status r = ''approved'') tbl) of
        [] \<Rightarrow> None
      | r # _ \<Rightarrow> Some (issue_id r))"

definition claim_assign :: "string \<Rightarrow> timestamptz \<Rightarrow> issue \<Rightarrow> issue" where
  "claim_assign worker_id now r =
     r\<lparr>status := ''in_progress'', claimed_by := Some worker_id, claimed_at := Some now\<rparr>"

text \<open>
  \<open>claim_issue(worker_id)\<close>: \<open>where id = (subquery)\<close> matches no row when the subquery is
  empty. The result is the returned row (or none) and the table after the update.
\<close>

definition claim_issue :: "string \<Rightarrow> timestamptz \<Rightarrow> issue list \<Rightarrow> issue option \<times> issue list" where
  "claim_issue worker_id now tbl =
     (let sel = claim_candidate tbl;
          cond = (\<lambda>r. Some (issue_id r) = sel)
      in (first_row (sql_returning cond (claim_assign worker_id now) now tbl),
          sql_update cond (claim_assign worker_id now) now tbl))"

text \<open>
  \<open>approve_issue(issue_id)\<close> and \<open>reject_issue(issue_id)\<close>. \<open>uid\<close> is \<open>auth.uid()\<close>, null for
  a caller that is not signed in. Neither function looks at the current status of the row.
\<close>

definition approve_assign :: "uuid option \<Rightarrow> timestamptz \<Rightarrow> issue \<Rightarrow> issue" where
  "approve_assign uid now r =
     r\<lparr>status := ''approved'', approved_by := uid, approved_at := Some now\<rparr>"

definition approve_issue :: "uuid option \<Rightarrow> timestamptz \<Rightarrow> uuid \<Rightarrow> issue list \<Rightarrow> issue option \<times> issue list" where
  "approve_issue uid now iid tbl =
     (let cond = (\<lambda>r. issue_id r = iid)
      in (first_row (sql_returning cond (approve_assign uid now) now tbl),
          sql_update cond (approve_assign uid now) now tbl))"

definition reject_assign :: "issue \<Rightarrow> issue" where
  "reject_assign r = r\<lparr>status := ''rejected''\<rparr>"

definition reject_issue :: "timestamptz \<Rightarrow> uuid \<Rightarrow> issue list \<Rightarrow> issue option \<times> issue list" where
  "reject_issue now iid tbl =
     (let cond = (\<lambda>r. issue_id r = iid)
      in (first_row (sql_returning cond reject_assign now tbl),
          sql_update cond reject_assign now tbl))"

text \<open>
  Inserting a row. The payload is the JSON object both insert paths of the repository send:
  the keys \<open>source_url\<close>, \<open>title\<close>, \<open>description\<close>, \<open>manual_instructions\<close> and \<open>status\<close>. \<open>None\<close>
  is JSON null for the first four; for \<open>status\<close> it is an absent key, which takes the column
  default \<open>'reported'\<close>. The constraints of the table that an insert can violate are
  \<open>title text not null\<close> and the primary key; nothing constrains the content of \<open>title\<close>.
  \<open>new_id\<close> is the value of \<open>gen_random_uuid()\<close>. Trigger \<open>set_issue_creator_before_insert\<close>
  fills \<open>created_by\<close> with \<open>auth.uid()\<close>.
\<close>

record payload =
  p_source_url :: "string option"
  p_title :: "string option"
  p_description :: "string option"
  p_manual_instructions :: "string option"
  p_status :: "string option"

datatype db_error = not_null_violation string | unique_violation string

definition set_issue_creator :: "uuid option \<Rightarrow> issue \<Rightarrow> issue" where
  "set_issue_creator uid new = (if created_by new = None then new\<lparr>created_by := uid\<rparr> else new)"

definition new_row :: "uuid \<Rightarrow> timestamptz \<Rightarrow> string \<Rightarrow> payload \<Rightarrow> issue" where
  "new_row new_id now t p =
     \<lparr>issue_id = new_id, created_at = now, updated_at = now,
      source_url = p_source_url p, title = t, description = p_description p,
      manual_instructions = p_manual_instructions p,
      status = (case p_status p of None \<Rightarrow> ''reported'' | Some s \<Rightarrow> s),
      pr_url = None, error_message = None, created_by = None, approved_by = None,
      approved_at = None, claimed_by = None, claimed_at = None\<rparr>"

definition insert_issue :: "uuid \<Rightarrow> timestamptz \<Rightarrow> uuid option \<Rightarrow> payload \<Rightarrow> issue list \<Rightarrow> db_error + issue list" where
  "insert_issue new_id now uid p tbl =
     (case p_title p of
        None \<Rightarrow> Inl (not_null_violation ''title'')
      | Some t \<Rightarrow>
          if new_id \<in> set (map issue_id tbl) then Inl (unique_violation ''id'')
          else Inr (tbl @ [set_issue_creator uid (new_row new_id now t p)]))"

text \<open>What a claim does to the row it selects.\<close>

definition claimed :: "string \<Rightarrow> timestamptz \<Rightarrow> issue \<Rightarrow> issue" where
  "claimed worker_id now r =
     r\<lparr>status := ''in_progress'', claimed_by := Some worker_id, claimed_at := Some now,
       updated_at := now\<rparr>"

text \<open>A row with the given id, creation time and status, and null or empty elsewhere.\<close>

definition row_of :: "uuid \<Rightarrow> timestamptz \<Rightarrow> string \<Rightarrow> issue" where
  "row_of i t st =
     new_row i t ''Stale year in footer''
       \<lparr>p_source_url = None, p_title = Some ''Stale year in footer'', p_description = None,
        p_manual_instructions = None, p_status = Some st\<rparr>"

section \<open>The worker (backend/worker.js)\<close>

text \<open>The configuration read from the environment.\<close>

record config =
  WORKER_ID :: string
  REPO_DIR :: string
  BASE_BRANCH :: string
  EMPTY_SLEEP_MS :: int
  ERROR_SLEEP_MS :: int

text \<open>
  What the worker cannot decide itself is an input of the model:
  \<^item> \<open>execSync\<close>: for a command line, either the bytes the command prints (\<open>Inr\<close>) or the
    exception thrown for a non-zero exit (\<open>Inl\<close>). An exception is represented by the text
    \<open>String(error)\<close>, which is all the worker ever reads of it;
  \<^item> \<open>spawn_codex\<close>: for a prompt, the event that ends the child process, \<open>close\<close> with an exit
    code (null when a signal killed it) or \<open>error\<close> with a message;
  \<^item> \<open>JSON_stringify\<close>: the rendering \<open>JSON.stringify(issue, null, 2)\<close>.
\<close>

datatype proc_event = Close "int option" | ProcError string

record shell =
  execSync :: "string \<Rightarrow> string + string"
  spawn_codex :: "string \<Rightarrow> proc_event"
  JSON_stringify :: "issue \<Rightarrow> string"

definition nl :: string where
  "nl = [CHR 0x0A]"

definition dq :: string where
  "dq = [CHR 0x22]"

text \<open>
  How a template literal prints the exit code: the digits are collected from the least
  significant one, in front of those already found.
\<close>

definition digit :: "nat \<Rightarrow> char" where
  "digit d = ''0123456789'' ! d"

fun decimal :: "nat \<Rightarrow> string \<Rightarrow> string" where
  "decimal n acc =
     (if n < 10 then digit n # acc else decimal (n div 10) (digit (n mod 10) # acc))"

definition string_of_int :: "int \<Rightarrow> string" where
  "string_of_int i = (if i < 0 then CHR ''-'' # decimal (nat (- i)) [] else decimal (nat i) [])"

text \<open>
  \<open>execSync(...).toString().trim()\<close>. The output of a command is a sequence of bytes, which
  \<open>toString\<close> reads as UTF-8; \<open>String.prototype.trim\<close> then removes, from both ends, the white
  space and the line terminators of ECMAScript. On the bytes that is the removal of their
  UTF-8 encodings, listed in \<open>white_space\<close>: U+0009 to U+000D, U+0020, U+00A0, U+1680,
  U+2000 to U+200A, U+2028, U+2029, U+202F, U+205F, U+3000 and U+FEFF. (Every encoding of more
  than one byte starts with a lead byte, so in well-formed UTF-8 a match at either end is a
  whole character.)
\<close>

definition white_space :: "string list" where
  "white_space =
     [[CHR 0x09], [CHR 0x0A], [CHR 0x0B], [CHR 0x0C], [CHR 0x0D], [CHR 0x20],
      [CHR 0xC2, CHR 0xA0],
      [CHR 0xE1, CHR 0x9A, CHR 0x80],
      [CHR 0xE2, CHR 0x80, CHR 0x80], [CHR 0xE2, CHR 0x80, CHR 0x81],
      [CHR 0xE2, CHR 0x80, CHR 0x82], [CHR 0xE2, CHR 0x80, CHR 0x83],
      [CHR 0xE2, CHR 0x80, CHR 0x84], [CHR 0xE2, CHR 0x80, CHR 0x85],
      [CHR 0xE2, CHR 0x80, CHR 0x86], [CHR 0xE2, CHR 0x80, CHR 0x87],
      [CHR 0xE2, CHR 0x80, CHR 0x88], [CHR 0xE2, CHR 0x80, CHR 0x89],
      [CHR 0xE2, CHR 0x80, CHR 0x8A],
      [CHR 0xE2, CHR 0x80, CHR 0xA8], [CHR 0xE2, CHR 0x80, CHR 0xA9],
      [CHR 0xE2, CHR 0x80, CHR 0xAF],
      [CHR 0xE2, CHR 0x81, CHR 0x9F],
      [CHR 0xE3, CHR 0x80, CHR 0x80],
      [CHR 0xEF, CHR 0xBB, CHR 0xBF]]"

text \<open>
  The number of bytes of the first sequence of \<open>ws\<close> that \<open>s\<close> starts with, 0 when it starts
  with none; and the removal of such sequences from the front, for as long as there is one.
\<close>

definition leading :: "string list \<Rightarrow> string \<Rightarrow> nat" where
  "leading ws s =
     (case find (\<lambda>w. take (length w) s = w) ws of None \<Rightarrow> 0 | Some w \<Rightarrow> length w)"

function strip_front :: "string list \<Rightarrow> string \<Rightarrow> string" where
  "strip_front ws s = (if leading ws s = 0 then s else strip_front ws (drop (leading ws s) s))"
  by pat_completeness auto
termination
proof (relation "measure (\<lambda>(ws, s). length s)")
  show "wf (measure (\<lambda>(ws, s). length s))" by simp
next
  fix ws :: "string list" and s :: string
  assume pos: "leading ws s \<noteq> 0"
  have "s \<noteq> []"
  proof
    assume "s = []"
    then have "find (\<lambda>w. take (length w) s = w) ws = None \<or>
               find (\<lambda>w. take (length w) s = w) ws = Some []"
      by (cases "find (\<lambda>w. take (length w) s = w) ws") (auto simp: find_Some_iff)
    then have "leading ws s = 0" by (auto simp: leading_def)
    with pos show False by simp
  qed
  with pos show "((ws, drop (leading ws s) s), (ws, s)) \<in> measure (\<lambda>(ws, s). length s)"
    by simp
qed

declare strip_front.simps [simp del]

definition trim :: "string \<Rightarrow> string" where
  "trim s = rev (strip_front (map rev white_space) (rev (strip_front white_space s)))"

text \<open>\<open>run(cmd)\<close>: the trimmed output, or the exception of \<open>execSync\<close>.\<close>

definition run :: "shell \<Rightarrow> string \<Rightarrow> string + string" where
  "run sh cmd = (case execSync sh cmd of Inl e \<Rightarrow> Inl e | Inr out \<Rightarrow> Inr (trim out))"

text \<open>
  \<open>runCodex(prompt)\<close>: resolves on exit code 0, rejects with an \<open>Error\<close> otherwise.
  \<open>String(new Error(m))\<close> is \<open>"Error: " + m\<close>; a null exit code prints as \<open>null\<close>.
\<close>

definition runCodex :: "shell \<Rightarrow> string \<Rightarrow> string + unit" where
  "runCodex sh prompt =
     (case spawn_codex sh prompt of
        Close code \<Rightarrow>
          if code = Some 0 then Inr ()
          else Inl (''Error: Codex exited with code ''
                    @ (case code of None \<Rightarrow> ''null'' | Some c \<Rightarrow> string_of_int c))
      | ProcError msg \<Rightarrow> Inl (''Error: Failed to spawn codex: '' @ msg))"

text \<open>
  Sequencing inside the \<open>try\<close> block: the first exception ends the block.
\<close>

definition try_then :: "string + 'a \<Rightarrow> ('a \<Rightarrow> string + 'b) \<Rightarrow> string + 'b" where
  "try_then m k = (case m of Inl e \<Rightarrow> Inl e | Inr v \<Rightarrow> k v)"

text \<open>
  The patch of \<open>updateIssue(id, patch)\<close>: a JSON object with the keys the worker sets. \<open>None\<close>
  is an absent key, which leaves the column as it is.
\<close>

record patch =
  patch_status :: "string option"
  patch_pr_url :: "string option"
  patch_error_message :: "string option"

definition apply_patch :: "patch \<Rightarrow> issue \<Rightarrow> issue" where
  "apply_patch p r =
     r\<lparr>status := (case patch_status p of None \<Rightarrow> status r | Some s \<Rightarrow> s),
       pr_url := (case patch_pr_url p of None \<Rightarrow> pr_url r | Some u \<Rightarrow> Some u),
       error_message := (case patch_error_message p of None \<Rightarrow> error_message r | Some m \<Rightarrow> Some m)\<rparr>"

text \<open>
  What becomes of a call to the store. The client library and the network are not part of
  the repository, so this is an input: the call reaches the store, which carries it out; or
  the reply is an error object and the store is untouched; or the awaited promise is
  rejected, which throws in the caller.
\<close>

datatype link = Delivered | ErrorReply string | Broken string

text \<open>
  \<open>updateIssue(id, patch)\<close> awaits \<open>supabase.from("issues").update(patch).eq("id", id)\<close>: when
  the call is delivered the store rewrites the rows with that id; an error reply is logged
  and nothing else happens; a rejected promise throws out of \<open>updateIssue\<close> (\<open>Inl\<close>).
\<close>

definition updateIssue :: "link \<Rightarrow> uuid \<Rightarrow> patch \<Rightarrow> timestamptz \<Rightarrow> issue list \<Rightarrow> (string + unit) \<times> issue list" where
  "updateIssue l iid p now tbl =
     (case l of
        Delivered \<Rightarrow> (Inr (), sql_update (\<lambda>r. issue_id r = iid) (apply_patch p) now tbl)
      | ErrorReply e \<Rightarrow> (Inr (), tbl)
      | Broken e \<Rightarrow> (Inl e, tbl))"

text \<open>The pieces of \<open>processIssue\<close>, in the order of the source.\<close>

definition branchName :: "issue \<Rightarrow> string" where
  "branchName issue = ''auto/'' @ issue_id issue"

definition prompt :: "config \<Rightarrow> shell \<Rightarrow> issue \<Rightarrow> string" where
  "prompt cfg sh issue =
     nl @ ''You are maintaining the website repo at '' @ REPO_DIR cfg @ ''.'' @ nl
     @ ''You have access to web_search to verify facts before making changes.'' @ nl
     @ nl
     @ ''Issue JSON:'' @ nl
     @ JSON_stringify sh issue @ nl
     @ nl
     @ ''Manual instructions (if any):'' @ nl
     @ (case manual_instructions issue of None \<Rightarrow> ''None.'' | Some m \<Rightarrow> m) @ nl
     @ nl
     @ ''Task:'' @ nl
     @ ''- Understand the SPECIFIC issue described above. Use web_search if you need to verify facts or get current information.'' @ nl
     @ ''- Make minimal, high-quality changes to fix ONLY this specific issue.'' @ nl
     @ ''- DO NOT investigate or fix other issues you may notice - stay focused on the reported issue only.'' @ nl
     @ ''- Keep your changes minimal and targeted to the specific problem.'' @ nl"

text \<open>
  Steps 1 to 4: fetch, check out and pull the base branch, create the working branch, run
  the remediation tool. \<open>cleanupGitLock\<close> follows; it swallows its own exception and has
  no result.
\<close>

definition sync_and_fix :: "config \<Rightarrow> shell \<Rightarrow> issue \<Rightarrow> string + unit" where
  "sync_and_fix cfg sh issue =
     try_then (run sh ''git fetch origin'') (\<lambda>_.
     try_then (run sh (''git checkout '' @ BASE_BRANCH cfg)) (\<lambda>_.
     try_then (run sh (''git pull origin '' @ BASE_BRANCH cfg)) (\<lambda>_.
     try_then (run sh (''git checkout -B '' @ branchName issue)) (\<lambda>_.
     runCodex sh (prompt cfg sh issue)))))"

text \<open>
  \<open>prOutput.split("\n").find(line => line.includes("http")) ?? prOutput\<close>
  (\<open>includes\<close> is a keyword of Isabelle, hence \<open>includes_str\<close>).
\<close>

fun split_lines :: "string \<Rightarrow> string list" where
  "split_lines [] = [[]]"
| "split_lines (c # cs) =
     (if c = CHR 0x0A then [] # split_lines cs
      else (case split_lines cs of [] \<Rightarrow> [[c]] | l # ls \<Rightarrow> (c # l) # ls))"

fun includes_str :: "string \<Rightarrow> string \<Rightarrow> bool" where
  "includes_str [] sub = (sub = [])"
| "includes_str (c # cs) sub = (take (length sub) (c # cs) = sub \<or> includes_str cs sub)"

definition prUrl :: "string \<Rightarrow> string" where
  "prUrl prOutput =
     (case find (\<lambda>line. includes_str line ''http'') (split_lines prOutput) of
        Some line \<Rightarrow> line
      | None \<Rightarrow> prOutput)"

text \<open>Steps 6 and 7: stage, commit, push, open the pull request, and the patch of success.\<close>

definition publish :: "config \<Rightarrow> shell \<Rightarrow> issue \<Rightarrow> string + patch" where
  "publish cfg sh issue =
     try_then (run sh ''git add .'') (\<lambda>_.
     try_then (run sh (''git commit -m '' @ dq @ ''Fix issue '' @ issue_id issue @ '': ''
                        @ title issue @ dq)) (\<lambda>_.
     try_then (run sh (''git push -u origin '' @ branchName issue)) (\<lambda>_.
     try_then (run sh (''gh pr create --head '' @ branchName issue @ '' --base '' @ BASE_BRANCH cfg
                        @ '' --title '' @ dq @ ''Fix: '' @ title issue @ dq
                        @ '' --body '' @ dq @ ''Automatically generated fix for issue ''
                        @ issue_id issue @ ''.'' @ dq)) (\<lambda>prOutput.
     Inr \<lparr>patch_status = Some ''pr_raised'', patch_pr_url = Some (prUrl prOutput),
          patch_error_message = None\<rparr>))))"

text \<open>
  The steps of the \<open>try\<close> block up to its status write: \<open>Inr\<close> is the patch the block is
  about to hand to \<open>updateIssue\<close>, \<open>Inl\<close> the exception a step has raised. Step 5 is the test
  \<open>if (!status)\<close> on the trimmed output of \<open>git status --porcelain\<close>.
\<close>

definition try_block :: "config \<Rightarrow> shell \<Rightarrow> issue \<Rightarrow> string + patch" where
  "try_block cfg sh issue =
     try_then (sync_and_fix cfg sh issue) (\<lambda>_.
     try_then (run sh ''git status --porcelain'') (\<lambda>status.
     if status = [] then
       Inr \<lparr>patch_status = Some ''failed'', patch_pr_url = None,
            patch_error_message = Some ''No changes were produced by Codex for this issue.''\<rparr>
     else publish cfg sh issue))"

text \<open>
  The \<open>catch\<close> block: \<open>String(error).slice(0, 2000)\<close>, the first 2000 characters of the
  text (all of it when it is shorter).
\<close>

definition catch_block :: "string \<Rightarrow> patch" where
  "catch_block error =
     \<lparr>patch_status = Some ''failed'', patch_pr_url = None,
      patch_error_message = Some (take 2000 error)\<rparr>"

text \<open>
  \<open>processIssue(issue)\<close>. The status write of the \<open>try\<close> block goes over \<open>lw\<close>. An exception
  in the block, raised by a step or by that write, is caught, and the \<open>catch\<close> block sends its
  own write over \<open>lc\<close>; that call is outside any \<open>try\<close>, so an exception of it leaves
  \<open>processIssue\<close> (\<open>Inl\<close>). At most one of the two writes reaches the store; \<open>now\<close> is the
  time of the store when it does.
\<close>

definition processIssue :: "config \<Rightarrow> shell \<Rightarrow> link \<Rightarrow> link \<Rightarrow> timestamptz \<Rightarrow> issue \<Rightarrow> issue list \<Rightarrow> (string + unit) \<times> issue list" where
  "processIssue cfg sh lw lc now issue tbl =
     (case try_block cfg sh issue of
        Inl error \<Rightarrow> updateIssue lc (issue_id issue) (catch_block error) now tbl
      | Inr p \<Rightarrow>
          (case updateIssue lw (issue_id issue) p now tbl of
             (Inl error, tbl1) \<Rightarrow> updateIssue lc (issue_id issue) (catch_block error) now tbl1
           | (Inr u, tbl1) \<Rightarrow> (Inr (), tbl1)))"

text \<open>
  The reply of \<open>supabase.rpc("claim_issue", ...)\<close>. The promise is fulfilled with an object
  \<open>{data, error}\<close> or rejected, according to what becomes of the call; delivered, the store
  runs \<open>claim_issue\<close>.
\<close>

datatype rpc_data = JNull | JObj issue | JArr "issue list"

record response =
  data :: rpc_data
  error :: "string option"

datatype 'a settled = Fulfilled 'a | RejectedWith string

definition rpc_claim_issue :: "link \<Rightarrow> string \<Rightarrow> timestamptz \<Rightarrow> issue list \<Rightarrow> response settled \<times> issue list" where
  "rpc_claim_issue l worker_id now tbl =
     (case l of
        Delivered \<Rightarrow>
          (case claim_issue worker_id now tbl of
             (None, tbl') \<Rightarrow> (Fulfilled \<lparr>data = JNull, error = None\<rparr>, tbl')
           | (Some r, tbl') \<Rightarrow> (Fulfilled \<lparr>data = JObj r, error = None\<rparr>, tbl'))
      | ErrorReply e \<Rightarrow> (Fulfilled \<lparr>data = JNull, error = Some e\<rparr>, tbl)
      | Broken e \<Rightarrow> (RejectedWith e, tbl))"

text \<open>
  \<open>claimIssue()\<close>: \<open>Inl\<close> when the awaited promise is rejected, else the claimed issue or
  null.
\<close>

definition claimIssue :: "response settled \<Rightarrow> string + issue option" where
  "claimIssue reply =
     (case reply of
        RejectedWith e \<Rightarrow> Inl e
      | Fulfilled resp \<Rightarrow>
          (case error resp of
             Some e \<Rightarrow> Inr None
           | None \<Rightarrow>
               (case data resp of
                  JArr xs \<Rightarrow> Inr (case xs of [] \<Rightarrow> None | x # _ \<Rightarrow> Some x)
                | JObj x \<Rightarrow> Inr (Some x)
                | JNull \<Rightarrow> Inr None)))"

text \<open>
  One pass through the body of \<open>while (true)\<close> in \<open>main\<close>: what the pass ends with, and the
  table after it. \<open>idle_sleep\<close> is the \<open>setTimeout\<close> of the branch \<open>!issue || !issue.id\<close>,
  \<open>error_sleep\<close> the one of the loop's \<open>catch\<close>, reached by an exception of \<open>claimIssue\<close> or
  of \<open>processIssue\<close>.
\<close>

datatype pass_end = idle_sleep int | error_sleep int | processed

definition main_pass :: "config \<Rightarrow> link \<Rightarrow> timestamptz \<Rightarrow> shell \<Rightarrow> link \<Rightarrow> link \<Rightarrow> timestamptz \<Rightarrow> issue list \<Rightarrow> pass_end \<times> issue list" where
  "main_pass cfg l now sh lw lc now' tbl =
     (case rpc_claim_issue l (WORKER_ID cfg) now tbl of (reply, tbl1) \<Rightarrow>
        (case claimIssue reply of
           Inl err \<Rightarrow> (error_sleep (ERROR_SLEEP_MS cfg), tbl1)
         | Inr None \<Rightarrow> (idle_sleep (EMPTY_SLEEP_MS cfg), tbl1)
         | Inr (Some issue) \<Rightarrow>
             if issue_id issue = [] then (idle_sleep (EMPTY_SLEEP_MS cfg), tbl1)
             else (case processIssue cfg sh lw lc now' issue tbl1 of
                     (Inl err, tbl2) \<Rightarrow> (error_sleep (ERROR_SLEEP_MS cfg), tbl2)
                   | (Inr u, tbl2) \<Rightarrow> (processed, tbl2))))"



section \<open>The scanner (backend/scanner.js)\<close>

text \<open>
  A finding is one element of the \<open>issues\<close> array the detector hands back: a JSON object of
  which \<open>main\<close> reads the keys below. \<open>None\<close> is a key that is absent or null.
\<close>

record finding =
  f_title :: "string option"
  f_Title :: "string option"
  f_name :: "string option"
  f_description :: "string option"
  f_Description :: "string option"
  f_details :: "string option"
  f_source_url :: "string option"
  f_sourceUrl :: "string option"
  f_url :: "string option"
  f_link :: "string option"
  f_manualInstructions :: "string option"
  f_manual_instructions :: "string option"
  f_instructions :: "string option"

text \<open>The operator \<open>??\<close>: the left operand unless it is null.\<close>

definition nullish :: "'a option \<Rightarrow> 'a option \<Rightarrow> 'a option" where
  "nullish a b = (case a of None \<Rightarrow> b | Some x \<Rightarrow> Some x)"

text \<open>
  The payload \<open>main\<close> builds for a finding. \<open>strip\<close> stands for the chain of regular-expression
  replacements that removes citation markers from a description; it is applied under
  \<open>if (description)\<close>, that is to a description that is neither null nor empty. Nothing
  proved below depends on what it returns, so it is a parameter.
\<close>

definition finding_title :: "finding \<Rightarrow> string" where
  "finding_title f =
     (case nullish (nullish (f_title f) (f_Title f)) (f_name f) of
        None \<Rightarrow> ''Unlabeled issue''
      | Some t \<Rightarrow> t)"

definition finding_description :: "(string \<Rightarrow> string) \<Rightarrow> finding \<Rightarrow> string option" where
  "finding_description strip f =
     (case nullish (nullish (f_description f) (f_Description f)) (f_details f) of
        None \<Rightarrow> None
      | Some d \<Rightarrow> if d = [] then Some d else Some (strip d))"

definition scanner_payload :: "(string \<Rightarrow> string) \<Rightarrow> finding \<Rightarrow> payload" where
  "scanner_payload strip f =
     \<lparr>p_source_url = nullish (nullish (nullish (f_source_url f) (f_sourceUrl f)) (f_url f)) (f_link f),
      p_title = Some (finding_title f),
      p_description = finding_description strip f,
      p_manual_instructions =
        nullish (nullish (f_manualInstructions f) (f_manual_instructions f)) (f_instructions f),
      p_status = Some ''reported''\<rparr>"











section \<open>The portal\<close>

text \<open>
  The page for a manual issue: \<open>onSubmit\<close> inserts the state of the form with status
  \<open>reported\<close>; \<open>x || null\<close> turns an empty field into null. (The input for the title carries
  the attribute \<open>required\<close>, which the browser checks before it calls \<open>onSubmit\<close>.)
\<close>

record form =
  form_title :: string
  form_sourceUrl :: string
  form_description :: string
  form_instructions :: string

definition or_null :: "string \<Rightarrow> string option" where
  "or_null s = (if s = [] then None else Some s)"

definition onSubmit :: "form \<Rightarrow> payload" where
  "onSubmit fm =
     \<lparr>p_source_url = or_null (form_sourceUrl fm), p_title = Some (form_title fm),
      p_description = or_null (form_description fm),
      p_manual_instructions = or_null (form_instructions fm),
      p_status = Some ''reported''\<rparr>"

text \<open>
  The issue board (portal/app/issues/page.tsx): \<open>handle(action, id)\<close> calls the stored
  function \<open>approve_issue\<close> or \<open>reject_issue\<close>. The board shows the buttons Approve and
  Reject on a row whose status is \<open>reported\<close>, the button Re-approve (which is
  \<open>handle("approve", id)\<close>) on a row whose status is \<open>failed\<close>, and no button on any other
  row. The rows the board shows are those of its last \<open>loadIssues\<close>; \<open>buttons\<close> is what it
  draws for a row as fetched.
\<close>

datatype action = approve | reject

definition handle :: "action \<Rightarrow> uuid option \<Rightarrow> timestamptz \<Rightarrow> uuid \<Rightarrow> issue list \<Rightarrow> issue list" where
  "handle a uid now iid tbl =
     (case a of
        approve \<Rightarrow> snd (approve_issue uid now iid tbl)
      | reject \<Rightarrow> snd (reject_issue now iid tbl))"

definition buttons :: "issue \<Rightarrow> action list" where
  "buttons r =
     (if status r = ''reported'' then [approve, reject]
      else if status r = ''failed'' then [approve]
      else [])"

section \<open>The operations on a record, interleaved\<close>

text \<open>
  The state of the whole system: the table, and for each worker process the issue it has
  claimed and not yet finished (a worker runs \<open>claimIssue\<close> and \<open>processIssue\<close> in turn, so
  it holds at most one).
\<close>

record sys =
  store :: "issue list"
  holding :: "nat \<Rightarrow> issue option"

definition init :: sys where
  "init = \<lparr>store = [], holding = (\<lambda>p. None)\<rparr>"

text \<open>
  The operations the repository exposes, each with what the world decides in it: an insert
  by the scanner or by the manual form (the two inserts the repository makes, both with
  status \<open>reported\<close>), a call of \<open>approve_issue\<close> or \<open>reject_issue\<close> with any id at any time,
  the claim of worker process \<open>p\<close>, and the end of its pipeline run with the write of the
  terminal status. A claim and the end of the run are separate steps, so that other
  operations can fall between them.
\<close>

datatype op =
    ScannerInsert uuid timestamptz "string \<Rightarrow> string" finding
  | ManualInsert uuid timestamptz "uuid option" form
  | Handle action "uuid option" timestamptz uuid
  | WorkerClaim nat config link timestamptz
  | WorkerFinish nat config shell link link timestamptz

definition insert_or_skip :: "uuid \<Rightarrow> timestamptz \<Rightarrow> uuid option \<Rightarrow> payload \<Rightarrow> issue list \<Rightarrow> issue list" where
  "insert_or_skip new_id now uid p t =
     (case insert_issue new_id now uid p t of Inl err \<Rightarrow> t | Inr t' \<Rightarrow> t')"

fun step :: "sys \<Rightarrow> op \<Rightarrow> sys" where
  "step s (ScannerInsert new_id now strip f) =
     s\<lparr>store := insert_or_skip new_id now None (scanner_payload strip f) (store s)\<rparr>"
| "step s (ManualInsert new_id now uid fm) =
     s\<lparr>store := insert_or_skip new_id now uid (onSubmit fm) (store s)\<rparr>"
| "step s (Handle a uid now iid) = s\<lparr>store := handle a uid now iid (store s)\<rparr>"
| "step s (WorkerClaim p cfg l now) =
     (case holding s p of
        Some h \<Rightarrow> s
      | None \<Rightarrow>
          (case rpc_claim_issue l (WORKER_ID cfg) now (store s) of (reply, tbl1) \<Rightarrow>
             (case claimIssue reply of
                Inr (Some issue) \<Rightarrow>
                  if issue_id issue = [] then s\<lparr>store := tbl1\<rparr>
                  else s\<lparr>store := tbl1, holding := (holding s)(p := Some issue)\<rparr>
              | _ \<Rightarrow> s\<lparr>store := tbl1\<rparr>)))"
| "step s (WorkerFinish p cfg sh lw lc now) =
     (case holding s p of
        None \<Rightarrow> s
      | Some issue \<Rightarrow>
          s\<lparr>store := snd (processIssue cfg sh lw lc now issue (store s)),
            holding := (holding s)(p := None)\<rparr>)"

fun run_ops :: "sys \<Rightarrow> op list \<Rightarrow> sys" where
  "run_ops s [] = s"
| "run_ops s (x # xs) = run_ops (step s x) xs"

text \<open>The states after each operation of a sequence.\<close>

fun states :: "sys \<Rightarrow> op list \<Rightarrow> sys list" where
  "states s [] = []"
| "states s (x # xs) = step s x # states (step s x) xs"

text \<open>
  A call of \<open>approve_issue\<close> or \<open>reject_issue\<close> is timely when the row it names has, at the
  moment of the call, a status on which the board shows the button for that action:
  \<open>reported\<close> or \<open>failed\<close> for approve, \<open>reported\<close> for reject. This is a condition on the
  store when the call arrives. The board does not enforce it: it draws its buttons from the
  rows it fetched last and \<open>handle\<close> sends only the id, so the press of a button that is shown
  can arrive after another tab or a worker has moved the row on. The other operations carry
  no condition.
\<close>

definition timely :: "sys \<Rightarrow> op \<Rightarrow> bool" where
  "timely s x =
     (case x of
        Handle a uid now iid \<Rightarrow> list_ex (\<lambda>r. issue_id r = iid \<and> a \<in> set (buttons r)) (store s)
      | _ \<Rightarrow> True)"

fun all_timely :: "sys \<Rightarrow> op list \<Rightarrow> bool" where
  "all_timely s [] = True"
| "all_timely s (x # xs) = (timely s x \<and> all_timely (step s x) xs)"

text \<open>The status of the record with a given id, none before the record exists.\<close>

definition status_of :: "issue list \<Rightarrow> uuid \<Rightarrow> string option" where
  "status_of t iid = map_option status (find (\<lambda>r. issue_id r = iid) t)"

definition history :: "sys \<Rightarrow> op list \<Rightarrow> uuid \<Rightarrow> string option list" where
  "history s xs iid = map (\<lambda>s'. status_of (store s') iid) (states s xs)"

text \<open>
  The transition table of the state machine, and what it is for a history to follow it: a
  record appears with status \<open>reported\<close>, and each later status is the one before or a
  transition of the table away from it.
\<close>

definition transition :: "string \<Rightarrow> string \<Rightarrow> bool" where
  "transition a b =
     ((a, b) \<in> set [(''reported'', ''approved''), (''reported'', ''rejected''),
                    (''approved'', ''in_progress''), (''in_progress'', ''pr_raised''),
                    (''in_progress'', ''failed''), (''failed'', ''approved'')])"

fun moves :: "string option \<Rightarrow> string option \<Rightarrow> bool" where
  "moves None None = True"
| "moves None (Some b) = (b = ''reported'')"
| "moves (Some a) (Some b) = (a = b \<or> transition a b)"
| "moves (Some a) None = False"

fun follows :: "string option \<Rightarrow> string option list \<Rightarrow> bool" where
  "follows cur [] = True"
| "follows cur (x # xs) = (moves cur x \<and> follows x xs)"

section \<open>Invariants of the interleaved operations\<close>

text \<open>
  Rewriting the rows with a given id, which is what every update of the repository does, and
  the facts that hold of every state reached from the empty table when every call of
  \<open>approve_issue\<close> and \<open>reject_issue\<close> is timely: ids are distinct; the
  record a worker holds exists and is \<open>in_progress\<close>; no two workers hold the same record;
  \<open>pr_url\<close> is set exactly on the records that are \<open>pr_raised\<close>. The last definition is the
  half of that equivalence that holds with no condition on the calls.
\<close>

definition at_id :: "uuid \<Rightarrow> (issue \<Rightarrow> issue) \<Rightarrow> issue list \<Rightarrow> issue list" where
  "at_id j u t = map (\<lambda>r. if issue_id r = j then u r else r) t"

definition keeps_id :: "(issue \<Rightarrow> issue) \<Rightarrow> bool" where
  "keeps_id u = (\<forall>r. issue_id (u r) = issue_id r)"

definition held_in_progress :: "sys \<Rightarrow> bool" where
  "held_in_progress s =
     (\<forall>p h. holding s p = Some h \<longrightarrow>
        (\<exists>r \<in> set (store s). issue_id r = issue_id h)
        \<and> (\<forall>r \<in> set (store s). issue_id r = issue_id h \<longrightarrow> status r = ''in_progress''))"

definition holders_apart :: "sys \<Rightarrow> bool" where
  "holders_apart s =
     (\<forall>p q h h'. holding s p = Some h \<longrightarrow> holding s q = Some h' \<longrightarrow>
        issue_id h = issue_id h' \<longrightarrow> p = q)"

definition url_iff_raised :: "issue list \<Rightarrow> bool" where
  "url_iff_raised t = (\<forall>r \<in> set t. (pr_url r \<noteq> None) = (status r = ''pr_raised''))"

definition inv :: "sys \<Rightarrow> bool" where
  "inv s = (primary_key (store s) \<and> held_in_progress s \<and> holders_apart s \<and> url_iff_raised (store s))"

definition raised_has_url :: "issue list \<Rightarrow> bool" where
  "raised_has_url t = (\<forall>r \<in> set t. status r = ''pr_raised'' \<longrightarrow> pr_url r \<noteq> None)"

text \<open>The patches a run of \<open>processIssue\<close> can send: \<open>failed\<close> with a message, or \<open>pr_raised\<close> with a URL.\<close>

definition status_patch :: "patch \<Rightarrow> bool" where
  "status_patch p =
     ((\<exists>m. p = \<lparr>patch_status = Some ''failed'', patch_pr_url = None, patch_error_message = Some m\<rparr>)
      \<or> (\<exists>u. p = \<lparr>patch_status = Some ''pr_raised'', patch_pr_url = Some u,
                  patch_error_message = None\<rparr>))"

text \<open>
  From one table to a later one, every row is still there, in its place and with its id, and
  a \<open>pr_url\<close> that was set is still set.
\<close>

definition url_kept :: "issue list \<Rightarrow> issue list \<Rightarrow> bool" where
  "url_kept t t' =
     (length t \<le> length t'
      \<and> (\<forall>k < length t. issue_id (t' ! k) = issue_id (t ! k)
                          \<and> (pr_url (t ! k) \<noteq> None \<longrightarrow> pr_url (t' ! k) \<noteq> None)))"

section \<open>Sample data\<close>

text \<open>
  Three rows created in the order A, B, C and approved, through \<open>approve_issue\<close>, in the
  order B (at time 10), C (at time 20), A (at time 30).
\<close>

definition approved_out_of_order :: "issue list" where
  "approved_out_of_order =
     snd (approve_issue None 30 ''A''
       (snd (approve_issue None 20 ''C''
         (snd (approve_issue None 10 ''B''
           [row_of ''A'' 1 ''reported'', row_of ''B'' 2 ''reported'', row_of ''C'' 3 ''reported''])))))"

text \<open>
  The configuration of a worker started with no variable set but the credentials, and three
  worlds for a run of the pipeline: one where every command succeeds and prints nothing (so
  the working copy has no change), one where every command fails, one where the
  remediation tool has edited a file and the pull request is opened, and one where the tool
  has edited a file and the push fails.
\<close>

definition default_config :: config where
  "default_config =
     \<lparr>WORKER_ID = ''worker-1'', REPO_DIR = ''/repo'', BASE_BRANCH = ''main'',
      EMPTY_SLEEP_MS = 60000, ERROR_SLEEP_MS = 10000\<rparr>"

definition quiet_shell :: shell where
  "quiet_shell =
     \<lparr>execSync = (\<lambda>cmd. Inr []), spawn_codex = (\<lambda>p. Close (Some 0)),
      JSON_stringify = (\<lambda>r. ''{}'')\<rparr>"

definition offline_shell :: shell where
  "offline_shell =
     \<lparr>execSync = (\<lambda>cmd. Inl (''Error: Command failed: '' @ cmd)),
      spawn_codex = (\<lambda>p. Close (Some 0)), JSON_stringify = (\<lambda>r. ''{}'')\<rparr>"

definition editing_shell :: shell where
  "editing_shell =
     \<lparr>execSync = (\<lambda>cmd. if cmd = ''git status --porcelain'' then Inr '' M index.md''
                         else if take 12 cmd = ''gh pr create'' then Inr ''https://github.com/o/r/pull/1''
                         else Inr []),
      spawn_codex = (\<lambda>p. Close (Some 0)), JSON_stringify = (\<lambda>r. ''{}'')\<rparr>"

definition push_fails_shell :: shell where
  "push_fails_shell =
     \<lparr>execSync = (\<lambda>cmd. if cmd = ''git status --porcelain'' then Inr '' M index.md''
                         else if take 8 cmd = ''git push'' then Inl ''Error: Command failed: git push''
                         else Inr []),
      spawn_codex = (\<lambda>p. Close (Some 0)), JSON_stringify = (\<lambda>r. ''{}'')\<rparr>"

text \<open>A row as a worker holds it after a claim.\<close>

definition held_row :: issue where
  "held_row = claimed ''worker-1'' 5 (row_of ''a'' 1 ''approved'')"

text \<open>
  Findings: one whose title is the empty string, and one that repeats the title and the
  source URL of a row already in the table (a row that was rejected).
\<close>

definition blank_finding :: finding where
  "blank_finding =
     \<lparr>f_title = Some [], f_Title = None, f_name = None, f_description = None,
      f_Description = None, f_details = None, f_source_url = None, f_sourceUrl = None,
      f_url = None, f_link = None, f_manualInstructions = None, f_manual_instructions = None,
      f_instructions = None\<rparr>"



definition null_title_payload :: payload where
  "null_title_payload =
     \<lparr>p_source_url = None, p_title = None, p_description = None,
      p_manual_instructions = None, p_status = Some ''reported''\<rparr>"

definition empty_title_form :: form where
  "empty_title_form =
     \<lparr>form_title = [], form_sourceUrl = [], form_description = [], form_instructions = []\<rparr>"

text \<open>
  Sequences of operations on one record, entered through the manual form: the run of the
  specification's scenario (approved, claimed, no change produced, re-approved); a run that
  ends with a pull request; the same run followed by a call of \<open>approve_issue\<close> (the press
  of an Approve button that a second tab drew while the record was \<open>reported\<close>, or a direct
  call); and a rejection followed by a call of \<open>approve_issue\<close> (two tabs of the board that
  both fetched the record as \<open>reported\<close>, Reject pressed in one and Approve in the other).
\<close>

definition sample_form :: form where
  "sample_form =
     \<lparr>form_title = ''Stale year in footer'', form_sourceUrl = [], form_description = [],
      form_instructions = []\<rparr>"

definition retry_ops :: "op list" where
  "retry_ops =
     [ManualInsert ''a'' 1 None sample_form,
      Handle approve None 2 ''a'',
      WorkerClaim 0 default_config Delivered 3,
      WorkerFinish 0 default_config quiet_shell Delivered Delivered 4,
      Handle approve None 5 ''a'']"

definition raise_ops :: "op list" where
  "raise_ops =
     [ManualInsert ''a'' 1 None sample_form,
      Handle approve None 2 ''a'',
      WorkerClaim 0 default_config Delivered 3,
      WorkerFinish 0 default_config editing_shell Delivered Delivered 4]"

definition late_approve_ops :: "op list" where
  "late_approve_ops =
     [ManualInsert ''a'' 1 None sample_form,
      Handle reject None 2 ''a'',
      Handle approve None 3 ''a'']"

definition raised_then_approved_ops :: "op list" where
  "raised_then_approved_ops = raise_ops @ [Handle approve None 5 ''a'']"

section \<open>Facts about the store\<close>

lemma sort_key_min_head:
  assumes "sort_key f xs = r # rest"
  shows "r \<in> set xs \<and> (\<forall>x \<in> set xs. f r \<le> f x)"
proof -
  have s: "sorted (map f (r # rest))" using assms sorted_sort_key [of f xs] by simp
  have e: "set (r # rest) = set xs" using assms set_sort [of f xs] by simp
  from e have "r \<in> set xs" by auto
  moreover have "\<forall>x \<in> set xs. f r \<le> f x"
  proof
    fix x assume "x \<in> set xs"
    with e have "x = r \<or> x \<in> set rest" by auto
    with s show "f r \<le> f x" by auto
  qed
  ultimately show ?thesis by simp
qed

lemma map_upd_distinct_key:
  assumes "distinct (map f xs)" and "i < length xs"
  shows "map (\<lambda>x. if f x = f (xs ! i) then g x else x) xs = xs[i := g (xs ! i)]"
proof (rule nth_equalityI)
  show "length (map (\<lambda>x. if f x = f (xs ! i) then g x else x) xs) = length (xs[i := g (xs ! i)])"
    by simp
next
  fix j assume "j < length (map (\<lambda>x. if f x = f (xs ! i) then g x else x) xs)"
  then have j: "j < length xs" by simp
  have "f (xs ! j) = f (xs ! i) \<longleftrightarrow> j = i"
    using assms j nth_eq_iff_index_eq [of "map f xs" j i] by simp
  then show "map (\<lambda>x. if f x = f (xs ! i) then g x else x) xs ! j = xs[i := g (xs ! i)] ! j"
    using j assms(2) by (cases "j = i") simp_all
qed

lemma filter_distinct_key:
  assumes "distinct (map f xs)" and "i < length xs"
  shows "filter (\<lambda>x. f x = f (xs ! i)) xs = [xs ! i]"
  using assms
proof (induction xs arbitrary: i)
  case Nil
  then show ?case by simp
next
  case (Cons a xs)
  show ?case
  proof (cases i)
    case 0
    have "f a \<notin> f ` set xs" using Cons.prems(1) by simp
    then have "\<forall>x \<in> set xs. f x \<noteq> f a" by (metis imageI)
    then have "filter (\<lambda>x. f x = f a) xs = []" by (simp add: filter_empty_conv)
    with 0 show ?thesis by simp
  next
    case (Suc k)
    then have k: "k < length xs" using Cons.prems(2) by simp
    then have "xs ! k \<in> set xs" by simp
    moreover have "f a \<notin> f ` set xs" using Cons.prems(1) by simp
    ultimately have "f a \<noteq> f (xs ! k)" by (metis imageI)
    moreover have "filter (\<lambda>x. f x = f (xs ! k)) xs = [xs ! k]"
      using Cons.IH [of k] Cons.prems(1) k by simp
    ultimately show ?thesis using Suc by simp
  qed
qed

lemma claimed_eq: "moddatetime now (claim_assign w now r) = claimed w now r"
  by (simp add: moddatetime_def claim_assign_def claimed_def)

lemma claim_issue_none:
  assumes "\<forall>r \<in> set tbl. status r \<noteq> ''approved''"
  shows "claim_issue w now tbl = (None, tbl)"
proof -
  have "filter (\<lambda>r. status r = ''approved'') tbl = []"
    using assms by (simp add: filter_empty_conv)
  then have c: "claim_candidate tbl = None" by (simp add: claim_candidate_def)
  have "map (\<lambda>r. r) tbl = tbl" by simp
  with c show ?thesis
    by (simp add: claim_issue_def sql_update_def sql_returning_def first_row_def)
qed

lemma claim_issue_some:
  assumes pk: "primary_key tbl"
    and ex: "\<exists>r \<in> set tbl. status r = ''approved''"
  shows "\<exists>i < length tbl. status (tbl ! i) = ''approved''
           \<and> (\<forall>r \<in> set tbl. status r = ''approved'' \<longrightarrow> created_at (tbl ! i) \<le> created_at r)
           \<and> claim_issue w now tbl = (Some (claimed w now (tbl ! i)), tbl[i := claimed w now (tbl ! i)])"
proof -
  let ?A = "filter (\<lambda>r. status r = ''approved'') tbl"
  from ex have "?A \<noteq> []" by (simp add: filter_empty_conv)
  then have "sort_key created_at ?A \<noteq> []"
    using length_sort [of created_at ?A] by (metis length_0_conv)
  then obtain r rest where srt: "sort_key created_at ?A = r # rest"
    by (cases "sort_key created_at ?A") auto
  from sort_key_min_head [OF srt]
  have rA: "r \<in> set ?A" and rmin: "\<forall>x \<in> set ?A. created_at r \<le> created_at x" by auto
  from rA have "r \<in> set tbl" and rst: "status r = ''approved''" by auto
  then obtain i where i: "i < length tbl" and ri: "tbl ! i = r" by (auto simp: in_set_conv_nth)
  have cand: "claim_candidate tbl = Some (issue_id (tbl ! i))"
    using srt ri by (simp add: claim_candidate_def)
  have d: "distinct (map issue_id tbl)" using pk by (simp add: primary_key_def)
  have upd: "sql_update (\<lambda>x. issue_id x = issue_id (tbl ! i)) (claim_assign w now) now tbl
               = tbl[i := claimed w now (tbl ! i)]"
    using map_upd_distinct_key [OF d i, of "\<lambda>x. moddatetime now (claim_assign w now x)"]
    by (simp add: sql_update_def claimed_eq)
  have ret: "sql_returning (\<lambda>x. issue_id x = issue_id (tbl ! i)) (claim_assign w now) now tbl
               = [claimed w now (tbl ! i)]"
    using filter_distinct_key [OF d i] by (simp add: sql_returning_def claimed_eq)
  have "claim_issue w now tbl = (Some (claimed w now (tbl ! i)), tbl[i := claimed w now (tbl ! i)])"
    using cand upd ret by (simp add: claim_issue_def first_row_def)
  moreover have "\<forall>x \<in> set tbl. status x = ''approved'' \<longrightarrow> created_at (tbl ! i) \<le> created_at x"
    using rmin ri by simp
  ultimately show ?thesis using i ri rst by blast
qed

lemma primary_key_claimed:
  assumes "primary_key tbl" and "i < length tbl"
  shows "primary_key (tbl[i := claimed w now (tbl ! i)])"
proof -
  have "map issue_id (tbl[i := claimed w now (tbl ! i)]) = (map issue_id tbl)[i := issue_id (tbl ! i)]"
    by (simp add: map_update claimed_def)
  also have "\<dots> = map issue_id tbl" using assms(2) by (simp add: list_update_same_conv)
  finally show ?thesis using assms(1) by (simp add: primary_key_def)
qed

lemma claim_issue_strict:
  assumes pk: "primary_key tbl" and i: "i < length tbl"
    and st: "status (tbl ! i) = ''approved''"
    and mn: "\<forall>j < length tbl. j \<noteq> i \<longrightarrow> status (tbl ! j) = ''approved''
               \<longrightarrow> created_at (tbl ! i) < created_at (tbl ! j)"
  shows "claim_issue w now tbl = (Some (claimed w now (tbl ! i)), tbl[i := claimed w now (tbl ! i)])"
proof -
  have "\<exists>r \<in> set tbl. status r = ''approved''" using i st by (metis nth_mem)
  from claim_issue_some [OF pk this, of w now]
  obtain k where k: "k < length tbl" and kst: "status (tbl ! k) = ''approved''"
    and kmn: "\<forall>r \<in> set tbl. status r = ''approved'' \<longrightarrow> created_at (tbl ! k) \<le> created_at r"
    and res: "claim_issue w now tbl = (Some (claimed w now (tbl ! k)), tbl[k := claimed w now (tbl ! k)])"
    by blast
  have "k = i"
  proof (rule ccontr)
    assume "k \<noteq> i"
    with mn k kst have "created_at (tbl ! i) < created_at (tbl ! k)" by simp
    moreover have "created_at (tbl ! k) \<le> created_at (tbl ! i)" using kmn i st by simp
    ultimately show False by simp
  qed
  with res show ?thesis by simp
qed

lemma status_claimed: "status (claimed w now r) = ''in_progress''"
  by (simp add: claimed_def)

lemma issue_id_claimed: "issue_id (claimed w now r) = issue_id r"
  by (simp add: claimed_def)

lemma approved_out_of_order_rows: "approved_out_of_order =
  [(row_of ''A'' 1 ''approved'')\<lparr>approved_at := Some 30, updated_at := 30\<rparr>,
   (row_of ''B'' 2 ''approved'')\<lparr>approved_at := Some 10, updated_at := 10\<rparr>,
   (row_of ''C'' 3 ''approved'')\<lparr>approved_at := Some 20, updated_at := 20\<rparr>]"
  by (simp add: approved_out_of_order_def approve_issue_def sql_update_def approve_assign_def
       moddatetime_def row_of_def new_row_def)

section \<open>Facts about the worker\<close>

lemma try_then_Inl:
  "try_then m k = Inl e \<longleftrightarrow> m = Inl e \<or> (\<exists>v. m = Inr v \<and> k v = Inl e)"
  by (cases m) (simp_all add: try_then_def)

text \<open>
  Where an exception raised by a step of the \<open>try\<close> block comes from: the first command
  that fails, in the order of the pipeline, through step 6.
\<close>

lemma try_block_Inl_iff:
  "try_block cfg sh issue = Inl e \<longleftrightarrow>
     sync_and_fix cfg sh issue = Inl e
     \<or> (sync_and_fix cfg sh issue = Inr ()
        \<and> (run sh ''git status --porcelain'' = Inl e
           \<or> (\<exists>out. run sh ''git status --porcelain'' = Inr out \<and> out \<noteq> []
                  \<and> publish cfg sh issue = Inl e)))"
  by (auto simp: try_block_def try_then_def split: sum.splits if_splits)

lemma sync_and_fix_Inl_iff:
  "sync_and_fix cfg sh issue = Inl e \<longleftrightarrow>
     run sh ''git fetch origin'' = Inl e
     \<or> (\<exists>o1. run sh ''git fetch origin'' = Inr o1)
       \<and> (run sh (''git checkout '' @ BASE_BRANCH cfg) = Inl e
          \<or> (\<exists>o2. run sh (''git checkout '' @ BASE_BRANCH cfg) = Inr o2)
            \<and> (run sh (''git pull origin '' @ BASE_BRANCH cfg) = Inl e
               \<or> (\<exists>o3. run sh (''git pull origin '' @ BASE_BRANCH cfg) = Inr o3)
                 \<and> (run sh (''git checkout -B '' @ branchName issue) = Inl e
                    \<or> (\<exists>o4. run sh (''git checkout -B '' @ branchName issue) = Inr o4)
                      \<and> runCodex sh (prompt cfg sh issue) = Inl e)))"
  by (auto simp: sync_and_fix_def try_then_def split: sum.splits)

lemma publish_Inl_iff:
  "publish cfg sh issue = Inl e \<longleftrightarrow>
     run sh ''git add .'' = Inl e
     \<or> (\<exists>o1. run sh ''git add .'' = Inr o1)
       \<and> (run sh (''git commit -m '' @ dq @ ''Fix issue '' @ issue_id issue @ '': ''
                    @ title issue @ dq) = Inl e
          \<or> (\<exists>o2. run sh (''git commit -m '' @ dq @ ''Fix issue '' @ issue_id issue @ '': ''
                          @ title issue @ dq) = Inr o2)
            \<and> (run sh (''git push -u origin '' @ branchName issue) = Inl e
               \<or> (\<exists>o3. run sh (''git push -u origin '' @ branchName issue) = Inr o3)
                 \<and> run sh (''gh pr create --head '' @ branchName issue @ '' --base ''
                             @ BASE_BRANCH cfg @ '' --title '' @ dq @ ''Fix: '' @ title issue @ dq
                             @ '' --body '' @ dq @ ''Automatically generated fix for issue ''
                             @ issue_id issue @ ''.'' @ dq) = Inl e))"
  by (auto simp: publish_def try_then_def split: sum.splits)

lemma run_raises: "execSync sh cmd = Inl e \<Longrightarrow> run sh cmd = Inl e"
  by (simp add: run_def)

text \<open>The patch the \<open>try\<close> block hands to \<open>updateIssue\<close>, and the patch of the \<open>catch\<close> block.\<close>

lemma try_block_Inr:
  assumes "try_block cfg sh h = Inr p"
  shows "p = \<lparr>patch_status = Some ''failed'', patch_pr_url = None,
              patch_error_message = Some ''No changes were produced by Codex for this issue.''\<rparr>
       \<or> (\<exists>out. p = \<lparr>patch_status = Some ''pr_raised'', patch_pr_url = Some (prUrl out),
                      patch_error_message = None\<rparr>)"
  using assms
  by (auto simp: try_block_def publish_def try_then_def split: sum.splits if_splits)

text \<open>What a status write does to the store, by what becomes of the call.\<close>

lemma updateIssue_at:
  assumes "primary_key tbl" and "i < length tbl" and "issue_id (tbl ! i) = iid"
  shows "updateIssue Delivered iid p now tbl
           = (Inr (), tbl[i := moddatetime now (apply_patch p (tbl ! i))])"
proof -
  have d: "distinct (map issue_id tbl)" using assms(1) by (simp add: primary_key_def)
  from map_upd_distinct_key [OF d assms(2), of "\<lambda>x. moddatetime now (apply_patch p x)"] assms(3)
  show ?thesis by (simp add: updateIssue_def sql_update_def)
qed

lemma updateIssue_refused:
  "updateIssue (ErrorReply x) iid p now tbl = (Inr (), tbl)"
  "updateIssue (Broken x) iid p now tbl = (Inl x, tbl)"
  by (simp_all add: updateIssue_def)

lemma updateIssue_store:
  "snd (updateIssue l iid p now tbl) = tbl
   \<or> snd (updateIssue l iid p now tbl) = sql_update (\<lambda>r. issue_id r = iid) (apply_patch p) now tbl"
  by (cases l) (simp_all add: updateIssue_def)

text \<open>
  The store after a run of \<open>processIssue\<close> is the store before it, or that store with one
  patch applied to the rows of the issue: \<open>failed\<close> with a message and no URL, or \<open>pr_raised\<close>
  with a URL.
\<close>

lemma status_patch_catch: "status_patch (catch_block e)"
  by (simp add: status_patch_def catch_block_def)

lemma status_patch_try: "try_block cfg sh h = Inr p \<Longrightarrow> status_patch p"
  using try_block_Inr [of cfg sh h p] by (auto simp: status_patch_def)

lemma processIssue_store:
  "snd (processIssue cfg sh lw lc now h t) = t
   \<or> (\<exists>p. status_patch p
         \<and> snd (processIssue cfg sh lw lc now h t)
             = sql_update (\<lambda>r. issue_id r = issue_id h) (apply_patch p) now t)"
proof (cases "try_block cfg sh h")
  case (Inl e)
  then have "processIssue cfg sh lw lc now h t = updateIssue lc (issue_id h) (catch_block e) now t"
    by (simp add: processIssue_def)
  with updateIssue_store [of lc "issue_id h" "catch_block e" now t] status_patch_catch [of e]
  show ?thesis by auto
next
  case (Inr p)
  note sp = status_patch_try [OF Inr]
  show ?thesis
  proof (cases lw)
    case Delivered
    with Inr have "snd (processIssue cfg sh lw lc now h t)
                     = sql_update (\<lambda>r. issue_id r = issue_id h) (apply_patch p) now t"
      by (simp add: processIssue_def updateIssue_def)
    with sp show ?thesis by blast
  next
    case (ErrorReply x)
    with Inr show ?thesis by (simp add: processIssue_def updateIssue_def)
  next
    case (Broken x)
    with Inr have "processIssue cfg sh lw lc now h t
                     = updateIssue lc (issue_id h) (catch_block x) now t"
      by (simp add: processIssue_def updateIssue_def)
    with updateIssue_store [of lc "issue_id h" "catch_block x" now t] status_patch_catch [of x]
    show ?thesis by auto
  qed
qed

text \<open>The command outputs of the sample worlds, trimmed.\<close>

lemma trim_samples:
  "trim [] = []"
  "trim '' M index.md'' = ''M index.md''"
  "trim ''https://github.com/o/r/pull/1'' = ''https://github.com/o/r/pull/1''"
  by (simp_all add: trim_def leading_def white_space_def strip_front.simps)

lemma trim_no_break_space: "trim [CHR 0xC2, CHR 0xA0, CHR 0x0A] = []"
  by (simp add: trim_def leading_def white_space_def strip_front.simps)

lemma quiet_shell_reaches_inspection:
  "sync_and_fix default_config quiet_shell issue = Inr ()"
  by (simp add: sync_and_fix_def try_then_def run_def runCodex_def quiet_shell_def)

lemma quiet_shell_no_diff: "run quiet_shell ''git status --porcelain'' = Inr []"
  by (simp add: run_def quiet_shell_def trim_samples)

lemma quiet_shell_patch:
  "try_block default_config quiet_shell issue
     = Inr \<lparr>patch_status = Some ''failed'', patch_pr_url = None,
            patch_error_message = Some ''No changes were produced by Codex for this issue.''\<rparr>"
  using quiet_shell_reaches_inspection [of issue] quiet_shell_no_diff
  by (simp add: try_block_def try_then_def)

lemma offline_shell_raises:
  "try_block default_config offline_shell issue = Inl ''Error: Command failed: git fetch origin''"
  by (simp add: try_block_def sync_and_fix_def try_then_def run_def offline_shell_def)

lemma editing_shell_patch:
  "try_block default_config editing_shell issue
     = Inr \<lparr>patch_status = Some ''pr_raised'',
            patch_pr_url = Some ''https://github.com/o/r/pull/1'', patch_error_message = None\<rparr>"
  by (simp add: try_block_def sync_and_fix_def try_then_def run_def
      editing_shell_def runCodex_def trim_samples publish_def prUrl_def
      default_config_def branchName_def dq_def)

lemma push_fails_shell_raises:
  "run push_fails_shell (''git push -u origin '' @ branchName issue)
     = Inl ''Error: Command failed: git push''"
  "try_block default_config push_fails_shell issue = Inl ''Error: Command failed: git push''"
  by (simp_all add: try_block_def sync_and_fix_def try_then_def run_def
      push_fails_shell_def runCodex_def trim_samples publish_def
      default_config_def branchName_def dq_def)

lemma held_row_simps:
  "issue_id held_row = ''a''" "status held_row = ''in_progress''"
  "primary_key [held_row]"
  by (simp_all add: held_row_def claimed_def row_of_def new_row_def primary_key_def)

section \<open>Facts about the scanner\<close>









section \<open>Facts about the interleaved operations\<close>

lemma sql_update_at_id:
  "sql_update (\<lambda>r. issue_id r = j) f now t = at_id j (\<lambda>r. moddatetime now (f r)) t"
  by (simp add: sql_update_def at_id_def)

lemma keeps_id_simps:
  "keeps_id (\<lambda>r. moddatetime now (approve_assign uid now r))"
  "keeps_id (\<lambda>r. moddatetime now (reject_assign r))"
  "keeps_id (\<lambda>r. moddatetime now (claim_assign w now r))"
  "keeps_id (\<lambda>r. moddatetime now (apply_patch p r))"
  by (simp_all add: keeps_id_def moddatetime_def approve_assign_def reject_assign_def
      claim_assign_def apply_patch_def)

lemma ids_at_id: "keeps_id u \<Longrightarrow> map issue_id (at_id j u t) = map issue_id t"
  by (induction t) (simp_all add: at_id_def keeps_id_def)

lemma primary_key_at_id: "keeps_id u \<Longrightarrow> primary_key t \<Longrightarrow> primary_key (at_id j u t)"
  by (simp add: primary_key_def ids_at_id)

lemma set_at_id: "set (at_id j u t) = (\<lambda>r. if issue_id r = j then u r else r) ` set t"
  by (simp add: at_id_def)

lemma find_at_id:
  "keeps_id u \<Longrightarrow>
   find (\<lambda>r. issue_id r = i) (at_id j u t)
     = map_option (\<lambda>r. if issue_id r = j then u r else r) (find (\<lambda>r. issue_id r = i) t)"
  by (induction t) (simp_all add: at_id_def keeps_id_def)

lemma find_id_Some: "find (\<lambda>r. issue_id r = i) t = Some r \<Longrightarrow> r \<in> set t \<and> issue_id r = i"
  by (induction t) (auto split: if_splits)

lemma primary_key_unique:
  assumes "primary_key t" "r \<in> set t" "r' \<in> set t" "issue_id r = issue_id r'"
  shows "r = r'"
  using assms by (metis primary_key_def distinct_map inj_onD)

lemma moves_refl: "moves x x"
  by (cases x) simp_all

lemma at_id_moves:
  assumes k: "keeps_id u"
    and tr: "\<forall>r \<in> set t. issue_id r = j \<longrightarrow> status (u r) = status r \<or> transition (status r) (status (u r))"
  shows "moves (status_of t i) (status_of (at_id j u t) i)"
proof (cases "find (\<lambda>r. issue_id r = i) t")
  case None
  then show ?thesis using k by (simp add: status_of_def find_at_id)
next
  case (Some r)
  then have r: "r \<in> set t" "issue_id r = i" using find_id_Some by auto
  show ?thesis
  proof (cases "i = j")
    case True
    with r tr have "status (u r) = status r \<or> transition (status r) (status (u r))" by simp
    with Some r True k show ?thesis by (auto simp: status_of_def find_at_id)
  next
    case False
    with Some r k show ?thesis by (simp add: status_of_def find_at_id)
  qed
qed

lemma find_append_id:
  "find P (xs @ ys) = (case find P xs of None \<Rightarrow> find P ys | Some x \<Rightarrow> Some x)"
  by (induction xs) simp_all

lemma append_moves:
  assumes "issue_id new \<notin> set (map issue_id t)" and "status new = ''reported''"
  shows "moves (status_of t i) (status_of (t @ [new]) i)"
proof (cases "find (\<lambda>r. issue_id r = i) t")
  case None
  then show ?thesis using assms by (simp add: status_of_def find_append_id)
next
  case (Some r)
  then show ?thesis by (simp add: status_of_def find_append_id)
qed

lemma insert_or_skip_cases:
  "insert_or_skip n now uid p t = t
   \<or> (\<exists>ttl. insert_or_skip n now uid p t = t @ [set_issue_creator uid (new_row n now ttl p)]
         \<and> n \<notin> set (map issue_id t))"
  by (auto simp: insert_or_skip_def insert_issue_def split: option.splits)

lemma new_row_simps:
  "issue_id (set_issue_creator uid (new_row n now ttl p)) = n"
  "pr_url (set_issue_creator uid (new_row n now ttl p)) = None"
  "status (set_issue_creator uid (new_row n now ttl p)) = (case p_status p of None \<Rightarrow> ''reported'' | Some s \<Rightarrow> s)"
  by (simp_all add: set_issue_creator_def new_row_def)

lemma payload_status:
  "p_status (scanner_payload strip f) = Some ''reported''"
  "p_status (onSubmit fm) = Some ''reported''"
  by (simp_all add: scanner_payload_def onSubmit_def)

lemma handle_at_id:
  "handle approve uid now j t = at_id j (\<lambda>r. moddatetime now (approve_assign uid now r)) t"
  "handle reject uid now j t = at_id j (\<lambda>r. moddatetime now (reject_assign r)) t"
  by (simp_all add: handle_def approve_issue_def reject_issue_def sql_update_at_id)

lemma at_id_same: "at_id j (\<lambda>r. r) t = t"
  by (induction t) (simp_all add: at_id_def)

lemma processIssue_at_id:
  "snd (processIssue cfg sh lw lc now h t) = t
   \<or> (\<exists>p. status_patch p
         \<and> snd (processIssue cfg sh lw lc now h t)
             = at_id (issue_id h) (\<lambda>r. moddatetime now (apply_patch p r)) t)"
  using processIssue_store [of cfg sh lw lc now h t] by (simp add: sql_update_at_id)

lemma claim_issue_shape:
  assumes pk: "primary_key t"
  shows "claim_issue w now t = (None, t)
       \<or> (\<exists>r \<in> set t. status r = ''approved''
             \<and> claim_issue w now t = (Some (claimed w now r), at_id (issue_id r) (claimed w now) t))"
proof (cases "\<exists>r \<in> set t. status r = ''approved''")
  case True
  from claim_issue_some [OF pk True, of w now]
  obtain i where i: "i < length t" and st: "status (t ! i) = ''approved''"
    and res: "claim_issue w now t = (Some (claimed w now (t ! i)), t[i := claimed w now (t ! i)])"
    by blast
  have d: "distinct (map issue_id t)" using pk by (simp add: primary_key_def)
  have "at_id (issue_id (t ! i)) (claimed w now) t = t[i := claimed w now (t ! i)]"
    using map_upd_distinct_key [OF d i, of "claimed w now"] by (simp add: at_id_def)
  with res i st show ?thesis by (metis nth_mem)
next
  case False
  then have "\<forall>r \<in> set t. status r \<noteq> ''approved''" by simp
  then show ?thesis by (simp add: claim_issue_none)
qed

lemma keeps_id_claimed: "keeps_id (claimed w now)"
  by (simp add: keeps_id_def claimed_def)

lemma step_claim_cases:
  assumes pk: "primary_key (store s)"
  shows "step s (WorkerClaim p cfg l now) = s
       \<or> (\<exists>r \<in> set (store s). status r = ''approved''
            \<and> (step s (WorkerClaim p cfg l now)
                  = s\<lparr>store := at_id (issue_id r) (claimed (WORKER_ID cfg) now) (store s)\<rparr>
               \<or> (holding s p = None
                  \<and> step s (WorkerClaim p cfg l now)
                      = s\<lparr>store := at_id (issue_id r) (claimed (WORKER_ID cfg) now) (store s),
                           holding := (holding s)(p := Some (claimed (WORKER_ID cfg) now r))\<rparr>)))"
proof (cases "holding s p")
  case (Some h)
  then show ?thesis by simp
next
  case None
  show ?thesis
  proof (cases l)
    case Delivered
    from claim_issue_shape [OF pk, of "WORKER_ID cfg" now]
    show ?thesis
    proof
      assume "claim_issue (WORKER_ID cfg) now (store s) = (None, store s)"
      then show ?thesis using None Delivered
        by (simp add: rpc_claim_issue_def claimIssue_def)
    next
      assume "\<exists>r \<in> set (store s). status r = ''approved''
             \<and> claim_issue (WORKER_ID cfg) now (store s)
                 = (Some (claimed (WORKER_ID cfg) now r),
                    at_id (issue_id r) (claimed (WORKER_ID cfg) now) (store s))"
      then obtain r where r: "r \<in> set (store s)" "status r = ''approved''"
        and c: "claim_issue (WORKER_ID cfg) now (store s)
                 = (Some (claimed (WORKER_ID cfg) now r),
                    at_id (issue_id r) (claimed (WORKER_ID cfg) now) (store s))"
        by blast
      have "step s (WorkerClaim p cfg l now)
                  = s\<lparr>store := at_id (issue_id r) (claimed (WORKER_ID cfg) now) (store s)\<rparr>
               \<or> step s (WorkerClaim p cfg l now)
                      = s\<lparr>store := at_id (issue_id r) (claimed (WORKER_ID cfg) now) (store s),
                           holding := (holding s)(p := Some (claimed (WORKER_ID cfg) now r))\<rparr>"
        using None Delivered c by (simp add: rpc_claim_issue_def claimIssue_def)
      with r None show ?thesis by blast
    qed
  next
    case (ErrorReply e)
    then show ?thesis using None by (simp add: rpc_claim_issue_def claimIssue_def)
  next
    case (Broken e)
    then show ?thesis using None by (simp add: rpc_claim_issue_def claimIssue_def)
  qed
qed

lemma url_at_id:
  assumes "url_iff_raised t"
    and "\<forall>r \<in> set t. issue_id r = j \<longrightarrow> (pr_url (u r) \<noteq> None) = (status (u r) = ''pr_raised'')"
  shows "url_iff_raised (at_id j u t)"
  using assms unfolding url_iff_raised_def set_at_id by auto

lemma held_rows_at_id:
  assumes k: "keeps_id u" and ne: "i \<noteq> j"
    and ex: "\<exists>r \<in> set t. issue_id r = i"
    and al: "\<forall>r \<in> set t. issue_id r = i \<longrightarrow> status r = ''in_progress''"
  shows "(\<exists>r \<in> set (at_id j u t). issue_id r = i)
       \<and> (\<forall>r \<in> set (at_id j u t). issue_id r = i \<longrightarrow> status r = ''in_progress'')"
proof
  from ex obtain r where r: "r \<in> set t" "issue_id r = i" by blast
  with ne have "(if issue_id r = j then u r else r) = r" by simp
  with r have "r \<in> set (at_id j u t)" unfolding set_at_id by force
  with r show "\<exists>r \<in> set (at_id j u t). issue_id r = i" by blast
next
  show "\<forall>r \<in> set (at_id j u t). issue_id r = i \<longrightarrow> status r = ''in_progress''"
  proof (intro ballI impI)
    fix r' assume a: "r' \<in> set (at_id j u t)" and b: "issue_id r' = i"
    from a obtain r where r: "r \<in> set t" and e: "r' = (if issue_id r = j then u r else r)"
      unfolding set_at_id by blast
    have "issue_id r' = issue_id r" using e k by (simp add: keeps_id_def)
    with b ne have "issue_id r \<noteq> j" "issue_id r = i" by simp_all
    with e r al show "status r' = ''in_progress''" by simp
  qed
qed

lemma inv_at_id:
  assumes i: "inv s" and k: "keeps_id u"
    and sub: "\<forall>p h. hs p = Some h \<longrightarrow> holding s p = Some h \<and> issue_id h \<noteq> j"
    and url: "\<forall>r \<in> set (store s). issue_id r = j \<longrightarrow> (pr_url (u r) \<noteq> None) = (status (u r) = ''pr_raised'')"
  shows "inv (s\<lparr>store := at_id j u (store s), holding := hs\<rparr>)"
proof -
  have pk: "primary_key (at_id j u (store s))"
    using i k by (simp add: inv_def primary_key_at_id)
  have u: "url_iff_raised (at_id j u (store s))"
    using i url by (simp add: inv_def url_at_id)
  have h: "held_in_progress (s\<lparr>store := at_id j u (store s), holding := hs\<rparr>)"
    unfolding held_in_progress_def
  proof (intro allI impI)
    fix p h assume "holding (s\<lparr>store := at_id j u (store s), holding := hs\<rparr>) p = Some h"
    then have "hs p = Some h" by simp
    with sub have hp: "holding s p = Some h" and ne: "issue_id h \<noteq> j" by blast+
    from i hp have ex: "\<exists>r \<in> set (store s). issue_id r = issue_id h"
      and al: "\<forall>r \<in> set (store s). issue_id r = issue_id h \<longrightarrow> status r = ''in_progress''"
      unfolding inv_def held_in_progress_def by blast+
    from held_rows_at_id [OF k ne ex al]
    show "(\<exists>r \<in> set (store (s\<lparr>store := at_id j u (store s), holding := hs\<rparr>)). issue_id r = issue_id h)
        \<and> (\<forall>r \<in> set (store (s\<lparr>store := at_id j u (store s), holding := hs\<rparr>)).
              issue_id r = issue_id h \<longrightarrow> status r = ''in_progress'')"
      by simp
  qed
  have a: "holders_apart (s\<lparr>store := at_id j u (store s), holding := hs\<rparr>)"
    unfolding holders_apart_def
  proof (intro allI impI)
    fix p q h h'
    assume "holding (s\<lparr>store := at_id j u (store s), holding := hs\<rparr>) p = Some h"
      and "holding (s\<lparr>store := at_id j u (store s), holding := hs\<rparr>) q = Some h'"
      and e: "issue_id h = issue_id h'"
    then have "holding s p = Some h" "holding s q = Some h'" using sub by simp_all
    with i e show "p = q" unfolding inv_def holders_apart_def by blast
  qed
  from pk u h a show ?thesis by (simp add: inv_def)
qed

lemma not_held_if_other_status:
  assumes i: "inv s" and r: "r \<in> set (store s)" and st: "status r \<noteq> ''in_progress''"
  shows "\<forall>p h. holding s p = Some h \<longrightarrow> issue_id h \<noteq> issue_id r"
proof (intro allI impI)
  fix p h assume hp: "holding s p = Some h"
  show "issue_id h \<noteq> issue_id r"
  proof
    assume "issue_id h = issue_id r"
    with i hp r have "status r = ''in_progress''"
      unfolding inv_def held_in_progress_def by metis
    with st show False by simp
  qed
qed

lemma timely_row:
  assumes "timely s (Handle a uid now j)"
  obtains r where "r \<in> set (store s)" "issue_id r = j" "a \<in> set (buttons r)"
  using assms by (auto simp: timely_def list_ex_iff)

lemma buttons_status:
  "approve \<in> set (buttons r) \<Longrightarrow> status r = ''reported'' \<or> status r = ''failed''"
  "reject \<in> set (buttons r) \<Longrightarrow> status r = ''reported''"
  by (auto simp: buttons_def split: if_splits)

lemma buttons_any:
  "a \<in> set (buttons r) \<Longrightarrow> status r = ''reported'' \<or> status r = ''failed''"
  by (auto simp: buttons_def split: if_splits)

lemma inv_handle:
  assumes i: "inv s" and off: "timely s (Handle a uid now j)"
  shows "inv (step s (Handle a uid now j))"
proof -
  from off obtain r0 where r0: "r0 \<in> set (store s)" "issue_id r0 = j" "a \<in> set (buttons r0)"
    by (rule timely_row)
  have st0: "status r0 = ''reported'' \<or> status r0 = ''failed''"
    using r0(3) by (rule buttons_any)
  then have nip: "status r0 \<noteq> ''in_progress''" by auto
  have free: "\<forall>p h. holding s p = Some h \<longrightarrow> issue_id h \<noteq> j"
    using not_held_if_other_status [OF i r0(1) nip] r0(2) by simp
  have pk: "primary_key (store s)" using i by (simp add: inv_def)
  have only: "\<forall>r \<in> set (store s). issue_id r = j \<longrightarrow> r = r0"
    using primary_key_unique [OF pk] r0 by metis
  have nourl: "pr_url r0 = None"
    using i r0(1) st0 unfolding inv_def url_iff_raised_def by auto
  show ?thesis
  proof (cases a)
    case approve
    have url: "\<forall>r \<in> set (store s). issue_id r = j \<longrightarrow>
        (pr_url (moddatetime now (approve_assign uid now r)) \<noteq> None)
          = (status (moddatetime now (approve_assign uid now r)) = ''pr_raised'')"
      using only nourl by (auto simp: moddatetime_def approve_assign_def)
    from inv_at_id [OF i keeps_id_simps(1), of "holding s" j] free url approve
    show ?thesis by (simp add: handle_at_id)
  next
    case reject
    have url: "\<forall>r \<in> set (store s). issue_id r = j \<longrightarrow>
        (pr_url (moddatetime now (reject_assign r)) \<noteq> None)
          = (status (moddatetime now (reject_assign r)) = ''pr_raised'')"
      using only nourl by (auto simp: moddatetime_def reject_assign_def)
    from inv_at_id [OF i keeps_id_simps(2), of "holding s" j] free url reject
    show ?thesis by (simp add: handle_at_id)
  qed
qed

lemma moves_handle:
  assumes i: "inv s" and off: "timely s (Handle a uid now j)"
  shows "moves (status_of (store s) i') (status_of (store (step s (Handle a uid now j))) i')"
proof -
  from off obtain r0 where r0: "r0 \<in> set (store s)" "issue_id r0 = j" "a \<in> set (buttons r0)"
    by (rule timely_row)
  have pk: "primary_key (store s)" using i by (simp add: inv_def)
  have only: "\<forall>r \<in> set (store s). issue_id r = j \<longrightarrow> r = r0"
    using primary_key_unique [OF pk] r0 by metis
  show ?thesis
  proof (cases a)
    case approve
    with r0 have "status r0 = ''reported'' \<or> status r0 = ''failed''" using buttons_status by simp
    then have "transition (status r0) ''approved''" by (auto simp: transition_def)
    with only have tr: "\<forall>r \<in> set (store s). issue_id r = j \<longrightarrow>
        status (moddatetime now (approve_assign uid now r)) = status r
        \<or> transition (status r) (status (moddatetime now (approve_assign uid now r)))"
      by (auto simp: moddatetime_def approve_assign_def)
    from at_id_moves [OF keeps_id_simps(1) tr] approve show ?thesis by (simp add: handle_at_id)
  next
    case reject
    with r0 have "status r0 = ''reported''" using buttons_status by simp
    then have "transition (status r0) ''rejected''" by (auto simp: transition_def)
    with only have tr: "\<forall>r \<in> set (store s). issue_id r = j \<longrightarrow>
        status (moddatetime now (reject_assign r)) = status r
        \<or> transition (status r) (status (moddatetime now (reject_assign r)))"
      by (auto simp: moddatetime_def reject_assign_def)
    from at_id_moves [OF keeps_id_simps(2) tr] reject show ?thesis by (simp add: handle_at_id)
  qed
qed

lemma claimed_row_facts:
  assumes i: "inv s" and r: "r \<in> set (store s)" and st: "status r = ''approved''"
  shows "\<forall>p h. holding s p = Some h \<longrightarrow> issue_id h \<noteq> issue_id r"
    and "\<forall>x \<in> set (store s). issue_id x = issue_id r \<longrightarrow> x = r"
    and "pr_url r = None"
proof -
  have "status r \<noteq> ''in_progress''" using st by simp
  from not_held_if_other_status [OF i r this]
  show "\<forall>p h. holding s p = Some h \<longrightarrow> issue_id h \<noteq> issue_id r" .
  have pk: "primary_key (store s)" using i by (simp add: inv_def)
  show "\<forall>x \<in> set (store s). issue_id x = issue_id r \<longrightarrow> x = r"
    using primary_key_unique [OF pk] r by metis
  show "pr_url r = None" using i r st unfolding inv_def url_iff_raised_def by auto
qed

lemma inv_claim_store:
  assumes i: "inv s" and r: "r \<in> set (store s)" and st: "status r = ''approved''"
  shows "inv (s\<lparr>store := at_id (issue_id r) (claimed w now) (store s)\<rparr>)"
proof -
  note f = claimed_row_facts [OF i r st]
  have url: "\<forall>x \<in> set (store s). issue_id x = issue_id r \<longrightarrow>
      (pr_url (claimed w now x) \<noteq> None) = (status (claimed w now x) = ''pr_raised'')"
    using f(2,3) by (auto simp: claimed_def)
  from inv_at_id [OF i keeps_id_claimed, of "holding s" "issue_id r" w now] f(1) url
  show ?thesis by simp
qed

lemma inv_claim_hold:
  assumes i: "inv s" and r: "r \<in> set (store s)" and st: "status r = ''approved''"
    and idle: "holding s p = None"
  shows "inv (s\<lparr>store := at_id (issue_id r) (claimed w now) (store s),
               holding := (holding s)(p := Some (claimed w now r))\<rparr>)"
proof -
  let ?t = "at_id (issue_id r) (claimed w now) (store s)"
  let ?s1 = "s\<lparr>store := ?t\<rparr>"
  note f = claimed_row_facts [OF i r st]
  have i1: "inv ?s1" by (rule inv_claim_store [OF i r st])
  have mine: "(\<exists>x \<in> set ?t. issue_id x = issue_id r)
            \<and> (\<forall>x \<in> set ?t. issue_id x = issue_id r \<longrightarrow> status x = ''in_progress'')"
  proof
    have "claimed w now r \<in> set ?t" using r unfolding set_at_id by force
    moreover have "issue_id (claimed w now r) = issue_id r" by (simp add: claimed_def)
    ultimately show "\<exists>x \<in> set ?t. issue_id x = issue_id r" by blast
  next
    show "\<forall>x \<in> set ?t. issue_id x = issue_id r \<longrightarrow> status x = ''in_progress''"
    proof (intro ballI impI)
      fix x assume "x \<in> set ?t" and e: "issue_id x = issue_id r"
      then obtain y where y: "y \<in> set (store s)"
        and x: "x = (if issue_id y = issue_id r then claimed w now y else y)"
        unfolding set_at_id by blast
      show "status x = ''in_progress''"
      proof (cases "issue_id y = issue_id r")
        case True
        with x show ?thesis by (simp add: claimed_def)
      next
        case False
        with x e show ?thesis by simp
      qed
    qed
  qed
  have pk: "primary_key ?t" and u: "url_iff_raised ?t" using i1 by (simp_all add: inv_def)
  have h: "held_in_progress (?s1\<lparr>holding := (holding s)(p := Some (claimed w now r))\<rparr>)"
    unfolding held_in_progress_def
  proof (intro allI impI)
    fix q h assume a: "holding (?s1\<lparr>holding := (holding s)(p := Some (claimed w now r))\<rparr>) q = Some h"
    show "(\<exists>x \<in> set (store (?s1\<lparr>holding := (holding s)(p := Some (claimed w now r))\<rparr>)).
              issue_id x = issue_id h)
        \<and> (\<forall>x \<in> set (store (?s1\<lparr>holding := (holding s)(p := Some (claimed w now r))\<rparr>)).
              issue_id x = issue_id h \<longrightarrow> status x = ''in_progress'')"
    proof (cases "q = p")
      case True
      with a have "h = claimed w now r" by simp
      then have "issue_id h = issue_id r" by (simp add: claimed_def)
      with mine show ?thesis by simp
    next
      case False
      with a have "holding ?s1 q = Some h" by simp
      with i1 show ?thesis unfolding inv_def held_in_progress_def by simp
    qed
  qed
  have ap: "holders_apart (?s1\<lparr>holding := (holding s)(p := Some (claimed w now r))\<rparr>)"
    unfolding holders_apart_def
  proof (intro allI impI)
    fix q q' h h'
    assume a: "holding (?s1\<lparr>holding := (holding s)(p := Some (claimed w now r))\<rparr>) q = Some h"
      and b: "holding (?s1\<lparr>holding := (holding s)(p := Some (claimed w now r))\<rparr>) q' = Some h'"
      and e: "issue_id h = issue_id h'"
    have own: "\<And>z k. z \<noteq> p \<Longrightarrow> holding s z = Some k \<Longrightarrow> issue_id k \<noteq> issue_id r"
      using f(1) by blast
    show "q = q'"
    proof (cases "q = p")
      case True
      then have hq: "issue_id h = issue_id r" using a by (auto simp: claimed_def)
      show ?thesis
      proof (cases "q' = p")
        case True
        with \<open>q = p\<close> show ?thesis by simp
      next
        case False
        with b have "holding s q' = Some h'" by simp
        with own [OF False] e hq show ?thesis by simp
      qed
    next
      case False
      with a have hq: "holding s q = Some h" by simp
      show ?thesis
      proof (cases "q' = p")
        case True
        then have "issue_id h' = issue_id r" using b by (auto simp: claimed_def)
        with own [OF False hq] e show ?thesis by simp
      next
        case False
        with b have "holding s q' = Some h'" by simp
        with hq e i show ?thesis unfolding inv_def holders_apart_def by blast
      qed
    qed
  qed
  from pk u h ap show ?thesis by (simp add: inv_def)
qed

lemma inv_claim:
  assumes i: "inv s"
  shows "inv (step s (WorkerClaim p cfg l now))"
proof -
  have pk: "primary_key (store s)" using i by (simp add: inv_def)
  from step_claim_cases [OF pk, of p cfg l now]
  show ?thesis
  proof (elim disjE bexE conjE)
    assume "step s (WorkerClaim p cfg l now) = s"
    with i show ?thesis by simp
  next
    fix r assume "r \<in> set (store s)" "status r = ''approved''"
      and "step s (WorkerClaim p cfg l now)
             = s\<lparr>store := at_id (issue_id r) (claimed (WORKER_ID cfg) now) (store s)\<rparr>"
    then show ?thesis using inv_claim_store [OF i] by simp
  next
    fix r assume "r \<in> set (store s)" "status r = ''approved''" "holding s p = None"
      and "step s (WorkerClaim p cfg l now)
             = s\<lparr>store := at_id (issue_id r) (claimed (WORKER_ID cfg) now) (store s),
                  holding := (holding s)(p := Some (claimed (WORKER_ID cfg) now r))\<rparr>"
    then show ?thesis using inv_claim_hold [OF i] by simp
  qed
qed

lemma moves_claim:
  assumes i: "inv s"
  shows "moves (status_of (store s) i') (status_of (store (step s (WorkerClaim p cfg l now))) i')"
proof -
  have pk: "primary_key (store s)" using i by (simp add: inv_def)
  have m: "\<And>r. r \<in> set (store s) \<Longrightarrow> status r = ''approved'' \<Longrightarrow>
     moves (status_of (store s) i')
           (status_of (at_id (issue_id r) (claimed (WORKER_ID cfg) now) (store s)) i')"
  proof -
    fix r assume r: "r \<in> set (store s)" and st: "status r = ''approved''"
    note f = claimed_row_facts [OF i r st]
    have "transition (status r) ''in_progress''" using st by (simp add: transition_def)
    with f(2) have tr: "\<forall>x \<in> set (store s). issue_id x = issue_id r \<longrightarrow>
        status (claimed (WORKER_ID cfg) now x) = status x
        \<or> transition (status x) (status (claimed (WORKER_ID cfg) now x))"
      by (auto simp: claimed_def)
    from at_id_moves [OF keeps_id_claimed tr]
    show "moves (status_of (store s) i')
           (status_of (at_id (issue_id r) (claimed (WORKER_ID cfg) now) (store s)) i')" .
  qed
  from step_claim_cases [OF pk, of p cfg l now]
  show ?thesis
  proof (elim disjE bexE conjE)
    assume "step s (WorkerClaim p cfg l now) = s"
    then show ?thesis by (simp add: moves_refl)
  next
    fix r assume "r \<in> set (store s)" "status r = ''approved''"
      and "step s (WorkerClaim p cfg l now)
             = s\<lparr>store := at_id (issue_id r) (claimed (WORKER_ID cfg) now) (store s)\<rparr>"
    then show ?thesis using m by simp
  next
    fix r assume "r \<in> set (store s)" "status r = ''approved''" "holding s p = None"
      and "step s (WorkerClaim p cfg l now)
             = s\<lparr>store := at_id (issue_id r) (claimed (WORKER_ID cfg) now) (store s),
                  holding := (holding s)(p := Some (claimed (WORKER_ID cfg) now r))\<rparr>"
    then show ?thesis using m by simp
  qed
qed

lemma held_row_facts:
  assumes i: "inv s" and hp: "holding s p = Some h"
  shows "\<forall>x \<in> set (store s). issue_id x = issue_id h \<longrightarrow> status x = ''in_progress'' \<and> pr_url x = None"
proof (intro ballI impI)
  fix x assume x: "x \<in> set (store s)" and e: "issue_id x = issue_id h"
  with i hp have st: "status x = ''in_progress''" unfolding inv_def held_in_progress_def by blast
  moreover have "pr_url x = None" using i x st unfolding inv_def url_iff_raised_def by auto
  ultimately show "status x = ''in_progress'' \<and> pr_url x = None" by simp
qed

lemma step_finish:
  "holding s p = Some h \<Longrightarrow>
   step s (WorkerFinish p cfg sh lw lc now)
     = s\<lparr>store := snd (processIssue cfg sh lw lc now h (store s)),
         holding := (holding s)(p := None)\<rparr>"
  by simp

lemma patched_row:
  assumes "status_patch q" and "status x = ''in_progress''" and "pr_url x = None"
  shows "(pr_url (moddatetime now (apply_patch q x)) \<noteq> None)
           = (status (moddatetime now (apply_patch q x)) = ''pr_raised'')"
    and "transition (status x) (status (moddatetime now (apply_patch q x)))"
  using assms by (auto simp: status_patch_def moddatetime_def apply_patch_def transition_def)

lemma released:
  assumes i: "inv s" and hp: "holding s p = Some h"
  shows "\<forall>q h'. ((holding s)(p := None)) q = Some h'
               \<longrightarrow> holding s q = Some h' \<and> issue_id h' \<noteq> issue_id h"
proof (intro allI impI)
  fix q h' assume a: "((holding s)(p := None)) q = Some h'"
  then have qp: "q \<noteq> p" and hq: "holding s q = Some h'" by (auto split: if_splits)
  have "issue_id h' \<noteq> issue_id h"
  proof
    assume "issue_id h' = issue_id h"
    with i hq hp have "q = p" unfolding inv_def holders_apart_def by blast
    with qp show False by simp
  qed
  with hq show "holding s q = Some h' \<and> issue_id h' \<noteq> issue_id h" by simp
qed

lemma inv_finish:
  assumes i: "inv s"
  shows "inv (step s (WorkerFinish p cfg sh lw lc now))"
proof (cases "holding s p")
  case None
  with i show ?thesis by simp
next
  case (Some h)
  note f = held_row_facts [OF i Some]
  note sub = released [OF i Some]
  from processIssue_at_id [of cfg sh lw lc now h "store s"]
  show ?thesis
  proof (elim disjE exE conjE)
    assume same: "snd (processIssue cfg sh lw lc now h (store s)) = store s"
    have k: "keeps_id (\<lambda>r. r)" by (simp add: keeps_id_def)
    have url: "\<forall>x \<in> set (store s). issue_id x = issue_id h \<longrightarrow>
        (pr_url x \<noteq> None) = (status x = ''pr_raised'')"
      using f by auto
    have "inv (s\<lparr>store := at_id (issue_id h) (\<lambda>r. r) (store s),
                holding := (holding s)(p := None)\<rparr>)"
      by (rule inv_at_id [OF i k sub url])
    then show ?thesis by (simp only: step_finish [OF Some] same at_id_same)
  next
    fix q assume sp: "status_patch q"
      and e: "snd (processIssue cfg sh lw lc now h (store s))
                = at_id (issue_id h) (\<lambda>r. moddatetime now (apply_patch q r)) (store s)"
    have url: "\<forall>x \<in> set (store s). issue_id x = issue_id h \<longrightarrow>
        (pr_url (moddatetime now (apply_patch q x)) \<noteq> None)
          = (status (moddatetime now (apply_patch q x)) = ''pr_raised'')"
      using f patched_row(1) [OF sp] by blast
    have "inv (s\<lparr>store := at_id (issue_id h) (\<lambda>r. moddatetime now (apply_patch q r)) (store s),
                holding := (holding s)(p := None)\<rparr>)"
      by (rule inv_at_id [OF i keeps_id_simps(4) sub url])
    then show ?thesis by (simp only: step_finish [OF Some] e)
  qed
qed

lemma moves_finish:
  assumes i: "inv s"
  shows "moves (status_of (store s) i')
           (status_of (store (step s (WorkerFinish p cfg sh lw lc now))) i')"
proof (cases "holding s p")
  case None
  then show ?thesis by (simp add: moves_refl)
next
  case (Some h)
  note f = held_row_facts [OF i Some]
  from processIssue_at_id [of cfg sh lw lc now h "store s"]
  show ?thesis
  proof (elim disjE exE conjE)
    assume "snd (processIssue cfg sh lw lc now h (store s)) = store s"
    with Some show ?thesis by (simp add: moves_refl)
  next
    fix q assume sp: "status_patch q"
      and e: "snd (processIssue cfg sh lw lc now h (store s))
                = at_id (issue_id h) (\<lambda>r. moddatetime now (apply_patch q r)) (store s)"
    have tr: "\<forall>x \<in> set (store s). issue_id x = issue_id h \<longrightarrow>
        status (moddatetime now (apply_patch q x)) = status x
        \<or> transition (status x) (status (moddatetime now (apply_patch q x)))"
      using f patched_row(2) [OF sp] by blast
    from at_id_moves [OF keeps_id_simps(4) tr] Some e
    show ?thesis by simp
  qed
qed

lemma inv_append:
  assumes i: "inv s" and fresh: "issue_id new \<notin> set (map issue_id (store s))"
    and st: "status new = ''reported''" and nourl: "pr_url new = None"
  shows "inv (s\<lparr>store := store s @ [new]\<rparr>)"
proof -
  have pk: "primary_key (store s @ [new])"
    using i fresh by (simp add: inv_def primary_key_def)
  have u: "url_iff_raised (store s @ [new])"
    using i st nourl by (simp add: inv_def url_iff_raised_def)
  have h: "held_in_progress (s\<lparr>store := store s @ [new]\<rparr>)"
    unfolding held_in_progress_def
  proof (intro allI impI)
    fix p h assume "holding (s\<lparr>store := store s @ [new]\<rparr>) p = Some h"
    then have hp: "holding s p = Some h" by simp
    from i hp have ex: "\<exists>r \<in> set (store s). issue_id r = issue_id h"
      and al: "\<forall>r \<in> set (store s). issue_id r = issue_id h \<longrightarrow> status r = ''in_progress''"
      unfolding inv_def held_in_progress_def by blast+
    from ex have "issue_id h \<in> set (map issue_id (store s))" by (metis imageI set_map)
    with fresh have "issue_id new \<noteq> issue_id h" by auto
    with ex al
    show "(\<exists>r \<in> set (store (s\<lparr>store := store s @ [new]\<rparr>)). issue_id r = issue_id h)
        \<and> (\<forall>r \<in> set (store (s\<lparr>store := store s @ [new]\<rparr>)).
              issue_id r = issue_id h \<longrightarrow> status r = ''in_progress'')"
      by auto
  qed
  have a: "holders_apart (s\<lparr>store := store s @ [new]\<rparr>)"
    using i by (simp add: inv_def holders_apart_def)
  from pk u h a show ?thesis by (simp add: inv_def)
qed

lemma inv_insert:
  assumes i: "inv s" and ps: "p_status p = Some ''reported''"
  shows "inv (s\<lparr>store := insert_or_skip n now uid p (store s)\<rparr>)"
  using insert_or_skip_cases [of n now uid p "store s"]
proof (elim disjE exE conjE)
  assume "insert_or_skip n now uid p (store s) = store s"
  with i show ?thesis by simp
next
  fix ttl
  assume e: "insert_or_skip n now uid p (store s)
               = store s @ [set_issue_creator uid (new_row n now ttl p)]"
    and fr: "n \<notin> set (map issue_id (store s))"
  from inv_append [OF i, of "set_issue_creator uid (new_row n now ttl p)"] fr ps e
  show ?thesis by (simp add: new_row_simps)
qed

lemma moves_insert:
  assumes ps: "p_status p = Some ''reported''"
  shows "moves (status_of t i') (status_of (insert_or_skip n now uid p t) i')"
  using insert_or_skip_cases [of n now uid p t]
proof (elim disjE exE conjE)
  assume "insert_or_skip n now uid p t = t"
  then show ?thesis by (simp add: moves_refl)
next
  fix ttl
  assume e: "insert_or_skip n now uid p t = t @ [set_issue_creator uid (new_row n now ttl p)]"
    and fr: "n \<notin> set (map issue_id t)"
  from append_moves [of "set_issue_creator uid (new_row n now ttl p)" t i'] fr ps e
  show ?thesis by (simp add: new_row_simps)
qed

lemma inv_step:
  assumes "inv s" and "timely s x"
  shows "inv (step s x)"
proof (cases x)
  case (ScannerInsert n now strip f)
  with inv_insert [OF assms(1) payload_status(1)] show ?thesis by simp
next
  case (ManualInsert n now uid fm)
  with inv_insert [OF assms(1) payload_status(2)] show ?thesis by simp
next
  case (Handle a uid now j)
  with inv_handle [OF assms(1)] assms(2) show ?thesis by simp
next
  case (WorkerClaim p cfg l now)
  with inv_claim [OF assms(1)] show ?thesis by simp
next
  case (WorkerFinish p cfg sh lw lc now)
  with inv_finish [OF assms(1)] show ?thesis by simp
qed

lemma moves_step:
  assumes "inv s" and "timely s x"
  shows "moves (status_of (store s) i) (status_of (store (step s x)) i)"
proof (cases x)
  case (ScannerInsert n now strip f)
  with moves_insert [OF payload_status(1)] show ?thesis by simp
next
  case (ManualInsert n now uid fm)
  with moves_insert [OF payload_status(2)] show ?thesis by simp
next
  case (Handle a uid now j)
  with moves_handle [OF assms(1)] assms(2) show ?thesis by simp
next
  case (WorkerClaim p cfg l now)
  with moves_claim [OF assms(1)] show ?thesis by simp
next
  case (WorkerFinish p cfg sh lw lc now)
  with moves_finish [OF assms(1)] show ?thesis by simp
qed

lemma inv_init: "inv init"
  by (simp add: inv_def init_def primary_key_def held_in_progress_def holders_apart_def
      url_iff_raised_def)

lemma inv_run_ops: "inv s \<Longrightarrow> all_timely s xs \<Longrightarrow> inv (run_ops s xs)"
  by (induction xs arbitrary: s) (simp_all add: inv_step)

lemma follows_from:
  "inv s \<Longrightarrow> all_timely s xs \<Longrightarrow> follows (status_of (store s) i) (history s xs i)"
proof (induction xs arbitrary: s)
  case Nil
  then show ?case by (simp add: history_def)
next
  case (Cons x xs)
  then have o: "timely s x" and r: "all_timely (step s x) xs" by simp_all
  have "follows (status_of (store (step s x)) i) (history (step s x) xs i)"
    using Cons.IH [OF inv_step [OF Cons.prems(1) o] r] .
  moreover have "moves (status_of (store s) i) (status_of (store (step s x)) i)"
    by (rule moves_step [OF Cons.prems(1) o])
  ultimately show ?case by (simp add: history_def)
qed

lemma raised_has_url_update:
  assumes "raised_has_url t"
    and "\<forall>r. status (moddatetime now (f r)) = ''pr_raised'' \<longrightarrow> pr_url (moddatetime now (f r)) \<noteq> None"
  shows "raised_has_url (sql_update cond f now t)"
  using assms unfolding raised_has_url_def sql_update_def by auto

lemma raised_has_url_insert:
  assumes "raised_has_url t" and "p_status p = Some ''reported''"
  shows "raised_has_url (insert_or_skip n now uid p t)"
  using insert_or_skip_cases [of n now uid p t] assms
  by (auto simp: raised_has_url_def new_row_simps)

lemma store_claim_step:
  "store (step s (WorkerClaim p cfg l now)) = store s
   \<or> store (step s (WorkerClaim p cfg l now)) = snd (claim_issue (WORKER_ID cfg) now (store s))"
  by (cases l)
     (auto simp: rpc_claim_issue_def claimIssue_def split: option.splits prod.splits sum.splits)

lemma raised_has_url_step:
  assumes "raised_has_url (store s)"
  shows "raised_has_url (store (step s x))"
proof (cases x)
  case (ScannerInsert n now strip f)
  with raised_has_url_insert [OF assms payload_status(1)] show ?thesis by simp
next
  case (ManualInsert n now uid fm)
  with raised_has_url_insert [OF assms payload_status(2)] show ?thesis by simp
next
  case (Handle a uid now j)
  have "raised_has_url (sql_update (\<lambda>r. issue_id r = j) (approve_assign uid now) now (store s))"
    by (rule raised_has_url_update [OF assms]) (simp add: moddatetime_def approve_assign_def)
  moreover have "raised_has_url (sql_update (\<lambda>r. issue_id r = j) reject_assign now (store s))"
    by (rule raised_has_url_update [OF assms]) (simp add: moddatetime_def reject_assign_def)
  ultimately show ?thesis using Handle
    by (cases a) (simp_all add: handle_def approve_issue_def reject_issue_def Let_def)
next
  case (WorkerClaim p cfg l now)
  have "raised_has_url (snd (claim_issue (WORKER_ID cfg) now (store s)))"
    unfolding claim_issue_def Let_def snd_conv
    by (rule raised_has_url_update [OF assms]) (simp add: moddatetime_def claim_assign_def)
  with store_claim_step [of s p cfg l now] assms WorkerClaim show ?thesis by auto
next
  case (WorkerFinish p cfg sh lw lc now)
  show ?thesis
  proof (cases "holding s p")
    case None
    with assms WorkerFinish show ?thesis by simp
  next
    case (Some h)
    from processIssue_store [of cfg sh lw lc now h "store s"]
    show ?thesis
    proof (elim disjE exE conjE)
      assume "snd (processIssue cfg sh lw lc now h (store s)) = store s"
      with assms Some WorkerFinish show ?thesis by simp
    next
      fix q assume sp: "status_patch q"
        and e: "snd (processIssue cfg sh lw lc now h (store s))
                  = sql_update (\<lambda>r. issue_id r = issue_id h) (apply_patch q) now (store s)"
      have "\<forall>r. status (moddatetime now (apply_patch q r)) = ''pr_raised''
              \<longrightarrow> pr_url (moddatetime now (apply_patch q r)) \<noteq> None"
        using sp by (auto simp: status_patch_def moddatetime_def apply_patch_def)
      from raised_has_url_update [OF assms this]
      show ?thesis using Some WorkerFinish e by simp
    qed
  qed
qed

lemma raised_has_url_run: "raised_has_url (store s) \<Longrightarrow> raised_has_url (store (run_ops s xs))"
  by (induction xs arbitrary: s) (simp_all add: raised_has_url_step)

subsection \<open>No operation clears the URL\<close>

lemma url_kept_refl: "url_kept t t"
  by (simp add: url_kept_def)

lemma url_kept_trans: "url_kept t t' \<Longrightarrow> url_kept t' t'' \<Longrightarrow> url_kept t t''"
  unfolding url_kept_def by (metis (no_types, lifting) le_trans less_le_trans)

lemma url_kept_append: "url_kept t (t @ [new])"
  by (simp add: url_kept_def nth_append)

lemma url_kept_update:
  assumes "\<forall>r. issue_id (f r) = issue_id r \<and> (pr_url r \<noteq> None \<longrightarrow> pr_url (f r) \<noteq> None)"
  shows "url_kept t (sql_update cond f now t)"
  using assms by (simp add: url_kept_def sql_update_def moddatetime_def)

lemma url_kept_assign:
  "\<forall>r. issue_id (approve_assign uid now r) = issue_id r
       \<and> (pr_url r \<noteq> None \<longrightarrow> pr_url (approve_assign uid now r) \<noteq> None)"
  "\<forall>r. issue_id (reject_assign r) = issue_id r
       \<and> (pr_url r \<noteq> None \<longrightarrow> pr_url (reject_assign r) \<noteq> None)"
  "\<forall>r. issue_id (claim_assign w now r) = issue_id r
       \<and> (pr_url r \<noteq> None \<longrightarrow> pr_url (claim_assign w now r) \<noteq> None)"
  "\<forall>r. issue_id (apply_patch q r) = issue_id r
       \<and> (pr_url r \<noteq> None \<longrightarrow> pr_url (apply_patch q r) \<noteq> None)"
  by (auto simp: approve_assign_def reject_assign_def claim_assign_def apply_patch_def
      split: option.splits)

lemma url_kept_insert: "url_kept t (insert_or_skip n now uid p t)"
  using insert_or_skip_cases [of n now uid p t] by (auto simp: url_kept_refl url_kept_append)

lemma url_kept_step: "url_kept (store s) (store (step s x))"
proof (cases x)
  case (ScannerInsert n now strip f)
  then show ?thesis by (simp add: url_kept_insert)
next
  case (ManualInsert n now uid fm)
  then show ?thesis by (simp add: url_kept_insert)
next
  case (Handle a uid now j)
  then show ?thesis
    by (cases a)
       (simp_all add: handle_def approve_issue_def reject_issue_def Let_def
          url_kept_update [OF url_kept_assign(1)] url_kept_update [OF url_kept_assign(2)])
next
  case (WorkerClaim p cfg l now)
  have "url_kept (store s) (snd (claim_issue (WORKER_ID cfg) now (store s)))"
    unfolding claim_issue_def Let_def snd_conv
    by (rule url_kept_update [OF url_kept_assign(3)])
  with store_claim_step [of s p cfg l now] WorkerClaim show ?thesis
    by (auto simp: url_kept_refl)
next
  case (WorkerFinish p cfg sh lw lc now)
  show ?thesis
  proof (cases "holding s p")
    case None
    with WorkerFinish show ?thesis by (simp add: url_kept_refl)
  next
    case (Some h)
    from processIssue_store [of cfg sh lw lc now h "store s"]
    have "url_kept (store s) (snd (processIssue cfg sh lw lc now h (store s)))"
      using url_kept_update [OF url_kept_assign(4)] by (auto simp: url_kept_refl)
    with Some WorkerFinish show ?thesis by simp
  qed
qed

lemma url_kept_run: "url_kept (store s) (store (run_ops s xs))"
proof (induction xs arbitrary: s)
  case Nil
  show ?case by (simp add: url_kept_refl)
next
  case (Cons x xs)
  from url_kept_trans [OF url_kept_step [of s x] Cons.IH [of "step s x"]]
  show ?case by simp
qed

subsection \<open>The sample sequences, evaluated\<close>

lemmas eval_defs = insert_or_skip_def insert_issue_def onSubmit_def or_null_def set_issue_creator_def new_row_def
      handle_def approve_issue_def reject_issue_def sql_update_def moddatetime_def
      approve_assign_def reject_assign_def rpc_claim_issue_def claim_issue_def claim_candidate_def
      sql_returning_def first_row_def claim_assign_def claimIssue_def processIssue_def
      updateIssue_def apply_patch_def

lemma default_worker_id: "WORKER_ID default_config = ''worker-1''"
  by (simp add: default_config_def)

lemma retry_history: "history init retry_ops ''a'' = [Some ''reported'', Some ''approved'', Some ''in_progress'', Some ''failed'', Some ''approved'']"
  by (simp add: history_def retry_ops_def init_def sample_form_def status_of_def eval_defs quiet_shell_patch default_worker_id)

lemma retry_timely: "all_timely init retry_ops"
  by (simp add: retry_ops_def init_def sample_form_def timely_def buttons_def eval_defs quiet_shell_patch default_worker_id)

lemma late_approve_history: "history init late_approve_ops ''a'' = [Some ''reported'', Some ''rejected'', Some ''approved'']"
  by (simp add: history_def late_approve_ops_def init_def sample_form_def status_of_def eval_defs)

lemma raised_then_approved_history: "history init raised_then_approved_ops ''a'' = [Some ''reported'', Some ''approved'', Some ''in_progress'', Some ''pr_raised'', Some ''approved'']"
  by (simp add: history_def raised_then_approved_ops_def raise_ops_def init_def sample_form_def status_of_def eval_defs editing_shell_patch default_worker_id)

lemma raised_then_approved_store: "map status (store (run_ops init raised_then_approved_ops)) = [''approved'']
  \<and> map pr_url (store (run_ops init raised_then_approved_ops)) = [Some ''https://github.com/o/r/pull/1'']"
  by (simp add: raised_then_approved_ops_def raise_ops_def init_def sample_form_def eval_defs
      editing_shell_patch default_worker_id)

lemma raise_timely: "all_timely init raise_ops"
  by (simp add: raise_ops_def init_def sample_form_def timely_def buttons_def eval_defs editing_shell_patch default_worker_id)

lemma raise_store: "map status (store (run_ops init raise_ops)) = [''pr_raised'']
  \<and> map pr_url (store (run_ops init raise_ops)) = [Some ''https://github.com/o/r/pull/1'']"
  by (simp add: raise_ops_def init_def sample_form_def eval_defs editing_shell_patch default_worker_id)

lemma rejected_approved_no_path: "\<not> follows None [Some ''reported'', Some ''rejected'', Some ''approved'']"
  by (simp add: transition_def)

lemma default_sleeps:
  "EMPTY_SLEEP_MS default_config = 60000" "ERROR_SLEEP_MS default_config = 10000"
  by (simp_all add: default_config_def)

lemma rejected_write_reaches_loop:
  "main_pass default_config Delivered 5 offline_shell Delivered (Broken ''fetch failed'') 7
     [row_of ''a'' 1 ''approved'']
   = (error_sleep 10000, [held_row])"
  by (simp add: main_pass_def eval_defs offline_shell_raises default_worker_id default_sleeps
      held_row_def claimed_def row_of_def)

section \<open>Claiming\<close>

text \<open>
  C1. A call \<open>claim_issue(worker_id)\<close> on a table with at least one \<open>approved\<close> row picks one
  such row of least \<open>created_at\<close>, sets its status to \<open>in_progress\<close>, \<open>claimed_by\<close> to the caller
  and \<open>claimed_at\<close> to the current time (the trigger also refreshes \<open>updated_at\<close>), returns the
  row as rewritten and changes no other row. With no \<open>approved\<close> row it returns none and the
  table is as before.
\<close>

theorem claim_issue_oldest_approved:
  assumes "primary_key tbl"
  shows "((\<exists>r \<in> set tbl. status r = ''approved'') \<longrightarrow>
            (\<exists>i < length tbl. status (tbl ! i) = ''approved''
               \<and> (\<forall>r \<in> set tbl. status r = ''approved'' \<longrightarrow> created_at (tbl ! i) \<le> created_at r)
               \<and> claim_issue worker_id now tbl
                   = (Some ((tbl ! i)\<lparr>status := ''in_progress'', claimed_by := Some worker_id,
                                      claimed_at := Some now, updated_at := now\<rparr>),
                      tbl[i := (tbl ! i)\<lparr>status := ''in_progress'', claimed_by := Some worker_id,
                                         claimed_at := Some now, updated_at := now\<rparr>])))
       \<and> ((\<forall>r \<in> set tbl. status r \<noteq> ''approved'') \<longrightarrow> claim_issue worker_id now tbl = (None, tbl))"
proof (intro conjI impI)
  assume "\<exists>r \<in> set tbl. status r = ''approved''"
  from claim_issue_some [OF assms this, of worker_id now]
  show "\<exists>i < length tbl. status (tbl ! i) = ''approved''
               \<and> (\<forall>r \<in> set tbl. status r = ''approved'' \<longrightarrow> created_at (tbl ! i) \<le> created_at r)
               \<and> claim_issue worker_id now tbl
                   = (Some ((tbl ! i)\<lparr>status := ''in_progress'', claimed_by := Some worker_id,
                                      claimed_at := Some now, updated_at := now\<rparr>),
                      tbl[i := (tbl ! i)\<lparr>status := ''in_progress'', claimed_by := Some worker_id,
                                         claimed_at := Some now, updated_at := now\<rparr>])"
    by (simp add: claimed_def)
next
  assume "\<forall>r \<in> set tbl. status r \<noteq> ''approved''"
  then show "claim_issue worker_id now tbl = (None, tbl)" by (rule claim_issue_none)
qed

theorem claim_issue_oldest_approved_witness:
  "primary_key [row_of ''a'' 5 ''approved'', row_of ''b'' 3 ''reported'', row_of ''c'' 4 ''approved'']
   \<and> (\<exists>r \<in> set [row_of ''a'' 5 ''approved'', row_of ''b'' 3 ''reported'', row_of ''c'' 4 ''approved''].
         status r = ''approved'')
   \<and> claim_issue ''worker-1'' 9
        [row_of ''a'' 5 ''approved'', row_of ''b'' 3 ''reported'', row_of ''c'' 4 ''approved'']
      = (Some ((row_of ''c'' 4 ''approved'')\<lparr>status := ''in_progress'', claimed_by := Some ''worker-1'',
                                           claimed_at := Some 9, updated_at := 9\<rparr>),
         [row_of ''a'' 5 ''approved'', row_of ''b'' 3 ''reported'',
          (row_of ''c'' 4 ''approved'')\<lparr>status := ''in_progress'', claimed_by := Some ''worker-1'',
                                       claimed_at := Some 9, updated_at := 9\<rparr>])
   \<and> primary_key [row_of ''b'' 3 ''reported'']
   \<and> status (row_of ''b'' 3 ''reported'') \<noteq> ''approved''
   \<and> claim_issue ''worker-1'' 9 [row_of ''b'' 3 ''reported''] = (None, [row_of ''b'' 3 ''reported''])"
proof -
  let ?t = "[row_of ''a'' 5 ''approved'', row_of ''b'' 3 ''reported'', row_of ''c'' 4 ''approved'']"
  have pk: "primary_key ?t" by (simp add: primary_key_def row_of_def new_row_def)
  have ex: "\<exists>r \<in> set ?t. status r = ''approved''" by (simp add: row_of_def new_row_def)
  from claim_issue_oldest_approved [OF pk, of "''worker-1''" 9] ex
  obtain i where i: "i < length ?t" and st: "status (?t ! i) = ''approved''"
    and mn: "\<forall>r \<in> set ?t. status r = ''approved'' \<longrightarrow> created_at (?t ! i) \<le> created_at r"
    and cl: "claim_issue ''worker-1'' 9 ?t
               = (Some ((?t ! i)\<lparr>status := ''in_progress'', claimed_by := Some ''worker-1'',
                                  claimed_at := Some 9, updated_at := 9\<rparr>),
                  ?t[i := (?t ! i)\<lparr>status := ''in_progress'', claimed_by := Some ''worker-1'',
                                     claimed_at := Some 9, updated_at := 9\<rparr>])"
    by blast
  from i have "i = 0 \<or> i = 1 \<or> i = 2" by auto
  with st mn have "i = 2" by (auto simp: row_of_def new_row_def)
  with cl have c3: "claim_issue ''worker-1'' 9 ?t
      = (Some ((row_of ''c'' 4 ''approved'')\<lparr>status := ''in_progress'', claimed_by := Some ''worker-1'',
                                           claimed_at := Some 9, updated_at := 9\<rparr>),
         [row_of ''a'' 5 ''approved'', row_of ''b'' 3 ''reported'',
          (row_of ''c'' 4 ''approved'')\<lparr>status := ''in_progress'', claimed_by := Some ''worker-1'',
                                       claimed_at := Some 9, updated_at := 9\<rparr>])"
    by simp
  have pk1: "primary_key [row_of ''b'' 3 ''reported'']" by (simp add: primary_key_def)
  have no: "\<forall>r \<in> set [row_of ''b'' 3 ''reported'']. status r \<noteq> ''approved''"
    by (simp add: row_of_def new_row_def)
  from claim_issue_oldest_approved [OF pk1, of "''worker-1''" 9] no
  have c1: "claim_issue ''worker-1'' 9 [row_of ''b'' 3 ''reported''] = (None, [row_of ''b'' 3 ''reported''])"
    by blast
  have no': "status (row_of ''b'' 3 ''reported'') \<noteq> ''approved''"
    by (simp add: row_of_def new_row_def)
  from pk ex c3 pk1 no' c1 show ?thesis by blast
qed

section \<open>Order of sequential claims\<close>

text \<open>
  C4, as stated, fails. In the sample table the rows are approved in the order B, C, A, and
  the first claim returns A, the row approved last: \<open>claim_issue\<close> orders by \<open>created_at\<close>
  and never reads \<open>approved_at\<close>.
\<close>

theorem claims_not_in_approval_order:
  "map approved_at approved_out_of_order = [Some 30, Some 10, Some 20]
   \<and> map status approved_out_of_order = [''approved'', ''approved'', ''approved'']
   \<and> map issue_id approved_out_of_order = [''A'', ''B'', ''C'']
   \<and> map_option issue_id (fst (claim_issue ''worker-1'' 40 approved_out_of_order)) = Some ''A''"
  by (simp add: approved_out_of_order_def approve_issue_def sql_update_def approve_assign_def
       moddatetime_def row_of_def new_row_def claim_issue_def claim_candidate_def sql_returning_def
       first_row_def claim_assign_def)

text \<open>
  C4, amended. When exactly three rows are \<open>approved\<close>, with creation times
  \<open>created_at a < created_at b < created_at c\<close>, three sequential claims return them in the
  order of creation (a, then b, then c), whatever their approval times and whoever claims;
  a fourth claim returns none.
\<close>

theorem sequential_claims_creation_order:
  assumes pk: "primary_key tbl"
    and a: "a < length tbl" and b: "b < length tbl" and c: "c < length tbl"
    and sa: "status (tbl ! a) = ''approved''"
    and sb: "status (tbl ! b) = ''approved''"
    and sc: "status (tbl ! c) = ''approved''"
    and ab: "created_at (tbl ! a) < created_at (tbl ! b)"
    and bc: "created_at (tbl ! b) < created_at (tbl ! c)"
    and others: "\<forall>j < length tbl. status (tbl ! j) = ''approved'' \<longrightarrow> j = a \<or> j = b \<or> j = c"
  shows "map_option issue_id (fst (claim_issue w1 n1 tbl)) = Some (issue_id (tbl ! a))
       \<and> map_option issue_id (fst (claim_issue w2 n2 (snd (claim_issue w1 n1 tbl))))
           = Some (issue_id (tbl ! b))
       \<and> map_option issue_id
           (fst (claim_issue w3 n3 (snd (claim_issue w2 n2 (snd (claim_issue w1 n1 tbl))))))
           = Some (issue_id (tbl ! c))
       \<and> fst (claim_issue w4 n4
           (snd (claim_issue w3 n3 (snd (claim_issue w2 n2 (snd (claim_issue w1 n1 tbl)))))))
           = None"
proof -
  have nab: "a \<noteq> b" using ab by auto
  have nbc: "b \<noteq> c" using bc by auto
  have nac: "a \<noteq> c" using ab bc by auto
  let ?t1 = "tbl[a := claimed w1 n1 (tbl ! a)]"
  let ?t2 = "?t1[b := claimed w2 n2 (?t1 ! b)]"
  let ?t3 = "?t2[c := claimed w3 n3 (?t2 ! c)]"
  have m1: "\<forall>j < length tbl. j \<noteq> a \<longrightarrow> status (tbl ! j) = ''approved''
              \<longrightarrow> created_at (tbl ! a) < created_at (tbl ! j)"
    using others ab bc by auto
  have c1: "claim_issue w1 n1 tbl = (Some (claimed w1 n1 (tbl ! a)), ?t1)"
    by (rule claim_issue_strict [OF pk a sa m1])
  have pk1: "primary_key ?t1" by (rule primary_key_claimed [OF pk a])
  have b1: "b < length ?t1" using b by simp
  have tb: "?t1 ! b = tbl ! b" using nab by simp
  have tc: "?t1 ! c = tbl ! c" using nac by simp
  have ta: "status (?t1 ! a) = ''in_progress''" using a by (simp add: status_claimed)
  have o1: "\<forall>j < length ?t1. status (?t1 ! j) = ''approved'' \<longrightarrow> j = b \<or> j = c"
  proof (intro allI impI)
    fix j assume j: "j < length ?t1" and s: "status (?t1 ! j) = ''approved''"
    have "j \<noteq> a" using s ta by auto
    then have "?t1 ! j = tbl ! j" by simp
    with s j others \<open>j \<noteq> a\<close> show "j = b \<or> j = c" by auto
  qed
  have m2: "\<forall>j < length ?t1. j \<noteq> b \<longrightarrow> status (?t1 ! j) = ''approved''
              \<longrightarrow> created_at (?t1 ! b) < created_at (?t1 ! j)"
    using o1 tb tc bc by auto
  have sb1: "status (?t1 ! b) = ''approved''" using tb sb by simp
  have c2: "claim_issue w2 n2 ?t1 = (Some (claimed w2 n2 (?t1 ! b)), ?t2)"
    by (rule claim_issue_strict [OF pk1 b1 sb1 m2])
  have pk2: "primary_key ?t2" by (rule primary_key_claimed [OF pk1 b1])
  have c2l: "c < length ?t2" using c by simp
  have tc2: "?t2 ! c = tbl ! c" using nbc nac by simp
  have tb2: "status (?t2 ! b) = ''in_progress''" using b by (simp add: status_claimed)
  have o2: "\<forall>j < length ?t2. status (?t2 ! j) = ''approved'' \<longrightarrow> j = c"
  proof (intro allI impI)
    fix j assume j: "j < length ?t2" and s: "status (?t2 ! j) = ''approved''"
    have jb: "j \<noteq> b" using s tb2 by auto
    then have "?t2 ! j = ?t1 ! j" by simp
    with s j o1 jb show "j = c" by auto
  qed
  have m3: "\<forall>j < length ?t2. j \<noteq> c \<longrightarrow> status (?t2 ! j) = ''approved''
              \<longrightarrow> created_at (?t2 ! c) < created_at (?t2 ! j)"
    using o2 by blast
  have sc2: "status (?t2 ! c) = ''approved''" using tc2 sc by simp
  have c3: "claim_issue w3 n3 ?t2 = (Some (claimed w3 n3 (?t2 ! c)), ?t3)"
    by (rule claim_issue_strict [OF pk2 c2l sc2 m3])
  have tc3: "status (?t3 ! c) = ''in_progress''" using c by (simp add: status_claimed)
  have o3: "\<forall>r \<in> set ?t3. status r \<noteq> ''approved''"
  proof
    fix r assume "r \<in> set ?t3"
    then obtain j where j: "j < length ?t3" and r: "r = ?t3 ! j"
      by (metis in_set_conv_nth)
    show "status r \<noteq> ''approved''"
    proof (cases "j = c")
      case True
      with tc3 r show ?thesis by simp
    next
      case False
      then have "?t3 ! j = ?t2 ! j" by simp
      with o2 j False r show ?thesis by auto
    qed
  qed
  have c4: "claim_issue w4 n4 ?t3 = (None, ?t3)" by (rule claim_issue_none [OF o3])
  have "issue_id (?t1 ! b) = issue_id (tbl ! b)" using tb by simp
  moreover have "issue_id (?t2 ! c) = issue_id (tbl ! c)" using tc2 by simp
  ultimately show ?thesis using c1 c2 c3 c4 by (simp add: issue_id_claimed)
qed

theorem sequential_claims_creation_order_witness:
  "primary_key approved_out_of_order
   \<and> status (approved_out_of_order ! 0) = ''approved''
   \<and> status (approved_out_of_order ! 1) = ''approved''
   \<and> status (approved_out_of_order ! 2) = ''approved''
   \<and> created_at (approved_out_of_order ! 0) < created_at (approved_out_of_order ! 1)
   \<and> created_at (approved_out_of_order ! 1) < created_at (approved_out_of_order ! 2)
   \<and> length approved_out_of_order = 3
   \<and> map_option issue_id (fst (claim_issue ''worker-1'' 40 approved_out_of_order)) = Some ''A''
   \<and> map_option issue_id (fst (claim_issue ''worker-2'' 41
        (snd (claim_issue ''worker-1'' 40 approved_out_of_order)))) = Some ''B''
   \<and> map_option issue_id (fst (claim_issue ''worker-1'' 42
        (snd (claim_issue ''worker-2'' 41
          (snd (claim_issue ''worker-1'' 40 approved_out_of_order)))))) = Some ''C''"
proof -
  let ?t = approved_out_of_order
  have len: "length ?t = 3" by (simp add: approved_out_of_order_rows)
  have pk: "primary_key ?t" by (simp add: approved_out_of_order_rows primary_key_def row_of_def new_row_def)
  have s0: "status (?t ! 0) = ''approved''" by (simp add: approved_out_of_order_rows row_of_def new_row_def)
  have s1: "status (?t ! 1) = ''approved''" by (simp add: approved_out_of_order_rows row_of_def new_row_def)
  have s2: "status (?t ! 2) = ''approved''" by (simp add: approved_out_of_order_rows row_of_def new_row_def)
  have l01: "created_at (?t ! 0) < created_at (?t ! 1)" by (simp add: approved_out_of_order_rows row_of_def new_row_def)
  have l12: "created_at (?t ! 1) < created_at (?t ! 2)" by (simp add: approved_out_of_order_rows row_of_def new_row_def)
  have oth: "\<forall>j < length ?t. status (?t ! j) = ''approved'' \<longrightarrow> j = 0 \<or> j = 1 \<or> j = 2"
    using len by auto
  have i0: "0 < length ?t" and i1: "1 < length ?t" and i2: "2 < length ?t" using len by simp_all
  from sequential_claims_creation_order [OF pk i0 i1 i2 s0 s1 s2 l01 l12 oth,
      of "''worker-1''" 40 "''worker-2''" 41 "''worker-1''" 42 "''worker-2''" 43]
  have "map_option issue_id (fst (claim_issue ''worker-1'' 40 ?t)) = Some (issue_id (?t ! 0))
     \<and> map_option issue_id (fst (claim_issue ''worker-2'' 41 (snd (claim_issue ''worker-1'' 40 ?t))))
         = Some (issue_id (?t ! 1))
     \<and> map_option issue_id (fst (claim_issue ''worker-1'' 42
          (snd (claim_issue ''worker-2'' 41 (snd (claim_issue ''worker-1'' 40 ?t))))))
         = Some (issue_id (?t ! 2))"
    by blast
  moreover have "issue_id (?t ! 0) = ''A''" "issue_id (?t ! 1) = ''B''" "issue_id (?t ! 2) = ''C''"
    by (simp_all add: approved_out_of_order_rows row_of_def new_row_def)
  ultimately show ?thesis using pk s0 s1 s2 l01 l12 len by simp
qed

section \<open>Outcomes of a pipeline run\<close>

text \<open>
  C5, as stated, fails. The run below gets through steps 1 to 4 and finds no change, and the
  store answers the status write with an error: \<open>updateIssue\<close> logs the error and the record
  stays \<open>in_progress\<close>. That the record ends \<open>failed\<close> depends on the store accepting the write.
\<close>

theorem no_diff_write_refused:
  "sync_and_fix default_config quiet_shell held_row = Inr ()
   \<and> run quiet_shell ''git status --porcelain'' = Inr []
   \<and> processIssue default_config quiet_shell (ErrorReply ''503'') Delivered 7 held_row [held_row]
       = (Inr (), [held_row])
   \<and> status held_row = ''in_progress''"
  using quiet_shell_reaches_inspection [of held_row] quiet_shell_no_diff quiet_shell_patch [of held_row]
  by (simp add: processIssue_def updateIssue_def held_row_simps)

text \<open>
  C5, amended. A run of \<open>processIssue\<close> on a claimed record that gets through steps 1 to 4
  and finds the (trimmed) output of \<open>git status --porcelain\<close> empty sends one status write:
  \<open>failed\<close> with the message \<open>No changes were produced by Codex for this issue.\<close> When the
  store accepts that write, the record is \<open>failed\<close> with that message. Whatever becomes of the
  writes, after the run the store is as it was or the record is \<open>failed\<close>; the record is not
  \<open>pr_raised\<close>.
\<close>

theorem no_diff_run_fails:
  assumes reach: "sync_and_fix cfg sh issue = Inr ()"
    and nodiff: "run sh ''git status --porcelain'' = Inr []"
    and pk: "primary_key tbl" and i: "i < length tbl" and id: "issue_id (tbl ! i) = issue_id issue"
    and st: "status (tbl ! i) = ''in_progress''"
  shows "try_block cfg sh issue
           = Inr \<lparr>patch_status = Some ''failed'', patch_pr_url = None,
                  patch_error_message = Some ''No changes were produced by Codex for this issue.''\<rparr>
       \<and> processIssue cfg sh Delivered lc now issue tbl
           = (Inr (), tbl[i := (tbl ! i)\<lparr>status := ''failed'',
                 error_message := Some ''No changes were produced by Codex for this issue.'',
                 updated_at := now\<rparr>])
       \<and> (snd (processIssue cfg sh lw lc now issue tbl) = tbl
            \<or> status (snd (processIssue cfg sh lw lc now issue tbl) ! i) = ''failed'')
       \<and> status (snd (processIssue cfg sh lw lc now issue tbl) ! i) \<noteq> ''pr_raised''"
proof -
  let ?p = "\<lparr>patch_status = Some ''failed'', patch_pr_url = None,
              patch_error_message = Some ''No changes were produced by Codex for this issue.''\<rparr>"
  have tb: "try_block cfg sh issue = Inr ?p"
    using reach nodiff by (simp add: try_block_def try_then_def)
  have del: "\<And>q. updateIssue Delivered (issue_id issue) q now tbl
                 = (Inr (), tbl[i := moddatetime now (apply_patch q (tbl ! i))])"
    using updateIssue_at [OF pk i id] by simp
  have d: "processIssue cfg sh Delivered lc now issue tbl
           = (Inr (), tbl[i := (tbl ! i)\<lparr>status := ''failed'',
                 error_message := Some ''No changes were produced by Codex for this issue.'',
                 updated_at := now\<rparr>])"
    using tb del [of ?p] by (simp add: processIssue_def apply_patch_def moddatetime_def)
  have alt: "snd (processIssue cfg sh lw lc now issue tbl) = tbl
            \<or> status (snd (processIssue cfg sh lw lc now issue tbl) ! i) = ''failed''"
  proof (cases lw)
    case Delivered
    with d i show ?thesis by simp
  next
    case (ErrorReply x)
    with tb show ?thesis by (simp add: processIssue_def updateIssue_def)
  next
    case (Broken x)
    then have c: "processIssue cfg sh lw lc now issue tbl
                    = updateIssue lc (issue_id issue) (catch_block x) now tbl"
      using tb by (simp add: processIssue_def updateIssue_def)
    show ?thesis
    proof (cases lc)
      case Delivered
      with c del [of "catch_block x"] i show ?thesis
        by (simp add: apply_patch_def moddatetime_def catch_block_def)
    next
      case (ErrorReply y)
      with c show ?thesis by (simp add: updateIssue_def)
    next
      case (Broken y)
      with c show ?thesis by (simp add: updateIssue_def)
    qed
  qed
  have "status (snd (processIssue cfg sh lw lc now issue tbl) ! i) \<noteq> ''pr_raised''"
    using alt st by auto
  with tb d alt show ?thesis by simp
qed

theorem no_diff_run_fails_witness:
  "sync_and_fix default_config quiet_shell held_row = Inr ()
   \<and> run quiet_shell ''git status --porcelain'' = Inr []
   \<and> primary_key [held_row]
   \<and> status ([held_row] ! 0) = ''in_progress''
   \<and> processIssue default_config quiet_shell Delivered Delivered 7 held_row [held_row]
       = (Inr (), [held_row\<lparr>status := ''failed'',
            error_message := Some ''No changes were produced by Codex for this issue.'',
            updated_at := 7\<rparr>])"
proof -
  have i: "0 < length [held_row]" by simp
  have id: "issue_id ([held_row] ! 0) = issue_id held_row" by simp
  have st: "status ([held_row] ! 0) = ''in_progress''" by (simp add: held_row_simps)
  from no_diff_run_fails [OF quiet_shell_reaches_inspection quiet_shell_no_diff
      held_row_simps(3) i id st, of Delivered 7 Delivered]
  show ?thesis
    using quiet_shell_reaches_inspection quiet_shell_no_diff held_row_simps(3) st by simp
qed

text \<open>
  C6, as stated, fails. In the run below \<open>git fetch\<close> fails and the exception is caught, but
  the write of \<open>failed\<close> is the worker's request, not its effect: when the store answers it
  with an error the record stays \<open>in_progress\<close>, and when the promise of the write is
  rejected that exception leaves \<open>processIssue\<close> for the \<open>catch\<close> of the worker loop.
\<close>

theorem failed_write_refused:
  "try_block default_config offline_shell held_row = Inl ''Error: Command failed: git fetch origin''
   \<and> processIssue default_config offline_shell Delivered (ErrorReply ''503'') 7 held_row [held_row]
       = (Inr (), [held_row])
   \<and> processIssue default_config offline_shell Delivered (Broken ''fetch failed'') 7 held_row
        [held_row]
       = (Inl ''fetch failed'', [held_row])
   \<and> status held_row = ''in_progress''
   \<and> main_pass default_config Delivered 5 offline_shell Delivered (Broken ''fetch failed'') 7
        [row_of ''a'' 1 ''approved'']
       = (error_sleep 10000, [held_row])"
  using offline_shell_raises [of held_row] rejected_write_reaches_loop
  by (simp add: processIssue_def updateIssue_def held_row_simps)

text \<open>
  C6, amended. An exception raised by a step of the \<open>try\<close> block of \<open>processIssue\<close> (the
  first failing command of steps 1 to 6, see \<open>try_block_Inl_iff\<close>, \<open>sync_and_fix_Inl_iff\<close> and
  \<open>publish_Inl_iff\<close>) is caught, and the \<open>catch\<close> block sends a write of status \<open>failed\<close> with
  \<open>error_message\<close> the first 2000 characters of the exception's string form (the whole of it
  when it is no longer than that). When the store accepts the write, the record is \<open>failed\<close>
  with that message and \<open>processIssue\<close> returns normally; when the store answers with an
  error, the record is left as it was and \<open>processIssue\<close> returns normally. The step's
  exception never reaches the worker loop; only the rejection of that write itself does, and
  then the record is left as it was.
\<close>

theorem pipeline_exception_recorded:
  assumes exn: "try_block cfg sh issue = Inl e"
    and pk: "primary_key tbl" and i: "i < length tbl" and id: "issue_id (tbl ! i) = issue_id issue"
  shows "processIssue cfg sh lw Delivered now issue tbl
           = (Inr (), tbl[i := (tbl ! i)\<lparr>status := ''failed'', error_message := Some (take 2000 e),
                                         updated_at := now\<rparr>])
       \<and> processIssue cfg sh lw (ErrorReply x) now issue tbl = (Inr (), tbl)
       \<and> processIssue cfg sh lw (Broken x) now issue tbl = (Inl x, tbl)
       \<and> length (take 2000 e) \<le> 2000
       \<and> (length e \<le> 2000 \<longrightarrow> take 2000 e = e)"
proof -
  have c: "\<And>lc. processIssue cfg sh lw lc now issue tbl
                   = updateIssue lc (issue_id issue) (catch_block e) now tbl"
    using exn by (simp add: processIssue_def)
  have "processIssue cfg sh lw Delivered now issue tbl
           = (Inr (), tbl[i := (tbl ! i)\<lparr>status := ''failed'', error_message := Some (take 2000 e),
                                         updated_at := now\<rparr>])"
    using c [of Delivered] updateIssue_at [OF pk i id, of "catch_block e" now]
    by (simp add: apply_patch_def moddatetime_def catch_block_def)
  moreover have "processIssue cfg sh lw (ErrorReply x) now issue tbl = (Inr (), tbl)"
    using c [of "ErrorReply x"] by (simp add: updateIssue_refused)
  moreover have "processIssue cfg sh lw (Broken x) now issue tbl = (Inl x, tbl)"
    using c [of "Broken x"] by (simp add: updateIssue_refused)
  ultimately show ?thesis by simp
qed

theorem pipeline_exception_recorded_witness:
  "try_block default_config offline_shell held_row = Inl ''Error: Command failed: git fetch origin''
   \<and> try_block default_config push_fails_shell held_row = Inl ''Error: Command failed: git push''
   \<and> primary_key [held_row]
   \<and> processIssue default_config offline_shell Delivered Delivered 7 held_row [held_row]
       = (Inr (), [held_row\<lparr>status := ''failed'',
            error_message := Some ''Error: Command failed: git fetch origin'',
            updated_at := 7\<rparr>])
   \<and> processIssue default_config push_fails_shell Delivered Delivered 7 held_row [held_row]
       = (Inr (), [held_row\<lparr>status := ''failed'',
            error_message := Some ''Error: Command failed: git push'',
            updated_at := 7\<rparr>])"
proof -
  have i: "0 < length [held_row]" by simp
  have id: "issue_id ([held_row] ! 0) = issue_id held_row" by simp
  from pipeline_exception_recorded [OF offline_shell_raises held_row_simps(3) i id, of Delivered 7]
  have a: "processIssue default_config offline_shell Delivered Delivered 7 held_row [held_row]
       = (Inr (), [held_row\<lparr>status := ''failed'',
            error_message := Some ''Error: Command failed: git fetch origin'',
            updated_at := 7\<rparr>])"
    by simp
  from pipeline_exception_recorded [OF push_fails_shell_raises(2) held_row_simps(3) i id,
      of Delivered 7]
  have b: "processIssue default_config push_fails_shell Delivered Delivered 7 held_row [held_row]
       = (Inr (), [held_row\<lparr>status := ''failed'',
            error_message := Some ''Error: Command failed: git push'',
            updated_at := 7\<rparr>])"
    by simp
  from a b offline_shell_raises [of held_row] push_fails_shell_raises(2) [of held_row]
    held_row_simps(3)
  show ?thesis by simp
qed

section \<open>The worker loop\<close>

text \<open>
  C10. When the reply of the \<open>claim_issue\<close> call carries an error, \<open>claimIssue\<close> returns
  null, and the pass of the loop ends in the idle sleep of \<open>EMPTY_SLEEP_MS\<close> with the store
  untouched; it does not end in the \<open>catch\<close> of the loop. A pass whose call reaches a store
  with no \<open>approved\<close> row ends in exactly the same way.
\<close>

theorem claim_error_is_idle:
  "claimIssue (Fulfilled \<lparr>data = d, error = Some e\<rparr>) = Inr None
   \<and> main_pass cfg (ErrorReply e) now sh lw lc now' tbl = (idle_sleep (EMPTY_SLEEP_MS cfg), tbl)
   \<and> fst (main_pass cfg (ErrorReply e) now sh lw lc now' tbl) \<noteq> error_sleep (ERROR_SLEEP_MS cfg)
   \<and> ((\<forall>r \<in> set tbl. status r \<noteq> ''approved'') \<longrightarrow>
        main_pass cfg Delivered now sh lw lc now' tbl = main_pass cfg (ErrorReply e) now sh lw lc now' tbl)"
proof (intro conjI impI)
  show "claimIssue (Fulfilled \<lparr>data = d, error = Some e\<rparr>) = Inr None"
    by (simp add: claimIssue_def)
  show ep: "main_pass cfg (ErrorReply e) now sh lw lc now' tbl = (idle_sleep (EMPTY_SLEEP_MS cfg), tbl)"
    by (simp add: main_pass_def rpc_claim_issue_def claimIssue_def)
  then show "fst (main_pass cfg (ErrorReply e) now sh lw lc now' tbl) \<noteq> error_sleep (ERROR_SLEEP_MS cfg)"
    by simp
  assume "\<forall>r \<in> set tbl. status r \<noteq> ''approved''"
  then have "claim_issue (WORKER_ID cfg) now tbl = (None, tbl)" by (rule claim_issue_none)
  then have "main_pass cfg Delivered now sh lw lc now' tbl = (idle_sleep (EMPTY_SLEEP_MS cfg), tbl)"
    by (simp add: main_pass_def rpc_claim_issue_def claimIssue_def)
  with ep show "main_pass cfg Delivered now sh lw lc now' tbl = main_pass cfg (ErrorReply e) now sh lw lc now' tbl"
    by simp
qed

theorem claim_error_is_idle_witness:
  "status (row_of ''a'' 1 ''reported'') \<noteq> ''approved''
   \<and> main_pass default_config Delivered 5 quiet_shell Delivered Delivered 7 [row_of ''a'' 1 ''reported'']
       = main_pass default_config (ErrorReply ''fetch failed'') 5 quiet_shell Delivered Delivered 7 [row_of ''a'' 1 ''reported'']
   \<and> main_pass default_config (ErrorReply ''fetch failed'') 5 quiet_shell Delivered Delivered 7 [row_of ''a'' 1 ''reported'']
       = (idle_sleep 60000, [row_of ''a'' 1 ''reported''])"
proof -
  have st: "status (row_of ''a'' 1 ''reported'') \<noteq> ''approved''"
    by (simp add: row_of_def new_row_def)
  then have no: "\<forall>r \<in> set [row_of ''a'' 1 ''reported'']. status r \<noteq> ''approved''" by simp
  from claim_error_is_idle [of JNull "''fetch failed''" default_config 5 quiet_shell Delivered
      Delivered 7 "[row_of ''a'' 1 ''reported'']"] no st
  show ?thesis by (simp add: default_config_def)
qed

section \<open>Inserting\<close>

text \<open>
  C8, as stated, fails. The scanner keeps a title that is the empty string (\<open>??\<close> replaces
  only null), and the store inserts it: the table constrains \<open>title\<close> to be not null and
  nothing more.
\<close>

theorem empty_title_is_inserted:
  "p_title (scanner_payload id blank_finding) = Some []
   \<and> insert_issue ''n'' 1 None (scanner_payload id blank_finding) []
       = Inr [new_row ''n'' 1 [] (scanner_payload id blank_finding)]
   \<and> title (new_row ''n'' 1 [] (scanner_payload id blank_finding)) = []"
  by (simp add: scanner_payload_def finding_title_def blank_finding_def nullish_def insert_issue_def
       set_issue_creator_def new_row_def)

text \<open>
  C8, amended. An insert whose title is null fails with a not-null violation, and no record
  is created. A title that is the empty string is accepted like any other. Every payload the
  scanner or the manual form builds carries status \<open>reported\<close>, and the record the store
  creates for it has status \<open>reported\<close>.
\<close>

theorem insert_issue_validation:
  "(p_title p = None \<longrightarrow> insert_issue new_id now uid p t = Inl (not_null_violation ''title''))
   \<and> (p_title p = Some [] \<longrightarrow> new_id \<notin> set (map issue_id t) \<longrightarrow>
        insert_issue new_id now uid p t = Inr (t @ [set_issue_creator uid (new_row new_id now [] p)]))
   \<and> (insert_issue new_id now None (scanner_payload strip f) t = Inr t' \<longrightarrow>
        (\<exists>r. t' = t @ [r] \<and> status r = ''reported''))
   \<and> (insert_issue new_id now uid (onSubmit fm) t = Inr t' \<longrightarrow>
        (\<exists>r. t' = t @ [r] \<and> status r = ''reported''))"
  by (auto simp: insert_issue_def scanner_payload_def onSubmit_def set_issue_creator_def new_row_def
      split: if_splits)

theorem insert_issue_validation_witness:
  "p_title null_title_payload = None
   \<and> insert_issue ''n'' 1 None null_title_payload [] = Inl (not_null_violation ''title'')
   \<and> p_title (onSubmit empty_title_form) = Some []
   \<and> ''n'' \<notin> set (map issue_id [])
   \<and> insert_issue ''n'' 1 None (onSubmit empty_title_form) []
       = Inr [set_issue_creator None (new_row ''n'' 1 [] (onSubmit empty_title_form))]
   \<and> insert_issue ''n'' 1 None (scanner_payload id blank_finding) []
       = Inr [new_row ''n'' 1 [] (scanner_payload id blank_finding)]
   \<and> status (new_row ''n'' 1 [] (scanner_payload id blank_finding)) = ''reported''
   \<and> status (set_issue_creator None (new_row ''n'' 1 [] (onSubmit empty_title_form))) = ''reported''"
proof -
  have n: "p_title null_title_payload = None" by (simp add: null_title_payload_def)
  have e: "p_title (onSubmit empty_title_form) = Some []"
    by (simp add: onSubmit_def empty_title_form_def)
  have fr: "''n'' \<notin> set (map issue_id [])" by simp
  have a: "insert_issue ''n'' 1 None null_title_payload [] = Inl (not_null_violation ''title'')"
    using insert_issue_validation [of null_title_payload "''n''" 1 None "[]" id blank_finding "[]"
        empty_title_form] n
    by blast
  have b: "insert_issue ''n'' 1 None (onSubmit empty_title_form) []
       = Inr [set_issue_creator None (new_row ''n'' 1 [] (onSubmit empty_title_form))]"
    using insert_issue_validation [of "onSubmit empty_title_form" "''n''" 1 None "[]" id
        blank_finding "[]" empty_title_form] e fr
    by simp
  have c: "insert_issue ''n'' 1 None (scanner_payload id blank_finding) []
       = Inr [new_row ''n'' 1 [] (scanner_payload id blank_finding)]"
    by (simp add: scanner_payload_def finding_title_def blank_finding_def nullish_def
        insert_issue_def set_issue_creator_def new_row_def)
  have "\<exists>r. [new_row ''n'' 1 [] (scanner_payload id blank_finding)] = [] @ [r] \<and> status r = ''reported''"
    using insert_issue_validation [of null_title_payload "''n''" 1 None "[]" id blank_finding
        "[new_row ''n'' 1 [] (scanner_payload id blank_finding)]" empty_title_form] c
    by blast
  then have d: "status (new_row ''n'' 1 [] (scanner_payload id blank_finding)) = ''reported''"
    by simp
  have "\<exists>r. [set_issue_creator None (new_row ''n'' 1 [] (onSubmit empty_title_form))] = [] @ [r]
          \<and> status r = ''reported''"
    using insert_issue_validation [of null_title_payload "''n''" 1 None "[]" id blank_finding
        "[set_issue_creator None (new_row ''n'' 1 [] (onSubmit empty_title_form))]" empty_title_form] b
    by blast
  then have f: "status (set_issue_creator None (new_row ''n'' 1 [] (onSubmit empty_title_form))) = ''reported''"
    by simp
  from n a e fr b c d f show ?thesis by blast
qed

section \<open>A scan cycle\<close>




section \<open>Legal transitions\<close>

text \<open>
  C3, as stated, fails. \<open>approve_issue\<close> and \<open>reject_issue\<close> rewrite the row whatever its
  status, and the board sends them from buttons it drew earlier. A call of \<open>approve_issue\<close>
  on a record that has been rejected in the meantime takes it from \<open>rejected\<close> to \<open>approved\<close>;
  on a record whose pull request has been opened, from \<open>pr_raised\<close> to \<open>approved\<close>. Neither
  is a transition of the table, and neither call is refused.
\<close>

theorem approve_issue_leaves_table:
  "history init late_approve_ops ''a'' = [Some ''reported'', Some ''rejected'', Some ''approved'']
   \<and> \<not> transition ''rejected'' ''approved''
   \<and> \<not> follows None (history init late_approve_ops ''a'')
   \<and> history init raised_then_approved_ops ''a''
       = [Some ''reported'', Some ''approved'', Some ''in_progress'', Some ''pr_raised'',
          Some ''approved'']
   \<and> \<not> transition ''pr_raised'' ''approved''
   \<and> \<not> follows None (history init raised_then_approved_ops ''a'')"
  by (simp add: late_approve_history raised_then_approved_history transition_def)

text \<open>
  C3, amended. Take any sequence of inserts (by the scanner or the manual form), claims,
  status writes of the workers, and calls of \<open>approve_issue\<close> and \<open>reject_issue\<close> each of which
  is timely: at the moment of the call the record is \<open>reported\<close> or \<open>failed\<close> for
  \<open>approve_issue\<close>, \<open>reported\<close> for \<open>reject_issue\<close>. Then for every record the statuses it
  takes, from its appearance as \<open>reported\<close>, are a path of the transition table. Nothing in
  the repository makes a call timely: the stored functions do not check the status they
  overwrite, and the board draws its buttons from rows it fetched earlier.
\<close>

theorem timely_history_follows_table:
  assumes "all_timely init xs"
  shows "follows None (history init xs i)"
proof -
  have "status_of (store init) i = None" by (simp add: init_def status_of_def)
  with follows_from [OF inv_init assms, of i] show ?thesis by simp
qed

theorem timely_history_follows_table_witness:
  "all_timely init retry_ops
   \<and> history init retry_ops ''a''
       = [Some ''reported'', Some ''approved'', Some ''in_progress'', Some ''failed'',
          Some ''approved'']
   \<and> follows None (history init retry_ops ''a'')"
  using timely_history_follows_table [OF retry_timely, of "''a''"] retry_timely retry_history
  by simp

section \<open>The pull request URL\<close>

text \<open>
  C7, as stated, fails. After a run that ends with a pull request, a call of \<open>approve_issue\<close>
  leaves the record \<open>approved\<close> with its \<open>pr_url\<close> still set.
\<close>

theorem pr_url_survives_approve_issue:
  "map status (store (run_ops init raised_then_approved_ops)) = [''approved'']
   \<and> map pr_url (store (run_ops init raised_then_approved_ops))
       = [Some ''https://github.com/o/r/pull/1'']"
  by (rule raised_then_approved_store)

text \<open>
  C7, amended. Take the records reached from the empty table by inserts of the scanner or
  the manual form, calls of \<open>approve_issue\<close> and \<open>reject_issue\<close>, claims and status writes of
  the workers. (1) A record that is \<open>pr_raised\<close> has its \<open>pr_url\<close> set. (2) No operation
  clears \<open>pr_url\<close>: from any state on, a record keeps its place and its id, and a \<open>pr_url\<close>
  that is set stays set, whatever status the record takes later. (3) When every call of
  \<open>approve_issue\<close> and \<open>reject_issue\<close> is timely (it finds the record \<open>reported\<close> or \<open>failed\<close>
  for approve, \<open>reported\<close> for reject, so that none finds it \<open>pr_raised\<close>), \<open>pr_url\<close> is set
  if and only if the status is \<open>pr_raised\<close>.
\<close>

theorem pr_url_and_pr_raised:
  "(\<forall>r \<in> set (store (run_ops init xs)). status r = ''pr_raised'' \<longrightarrow> pr_url r \<noteq> None)
   \<and> (\<forall>k < length (store s).
         k < length (store (run_ops s xs))
         \<and> issue_id (store (run_ops s xs) ! k) = issue_id (store s ! k)
         \<and> (pr_url (store s ! k) \<noteq> None \<longrightarrow> pr_url (store (run_ops s xs) ! k) \<noteq> None))
   \<and> (all_timely init xs \<longrightarrow>
        (\<forall>r \<in> set (store (run_ops init xs)). (pr_url r \<noteq> None) = (status r = ''pr_raised'')))"
proof (intro conjI)
  have "raised_has_url (store init)" by (simp add: raised_has_url_def init_def)
  from raised_has_url_run [OF this, of xs]
  show "\<forall>r \<in> set (store (run_ops init xs)). status r = ''pr_raised'' \<longrightarrow> pr_url r \<noteq> None"
    by (simp add: raised_has_url_def)
next
  from url_kept_run [of s xs]
  show "\<forall>k < length (store s).
         k < length (store (run_ops s xs))
         \<and> issue_id (store (run_ops s xs) ! k) = issue_id (store s ! k)
         \<and> (pr_url (store s ! k) \<noteq> None \<longrightarrow> pr_url (store (run_ops s xs) ! k) \<noteq> None)"
    by (auto simp: url_kept_def)
next
  show "all_timely init xs \<longrightarrow>
        (\<forall>r \<in> set (store (run_ops init xs)). (pr_url r \<noteq> None) = (status r = ''pr_raised''))"
  proof
    assume "all_timely init xs"
    from inv_run_ops [OF inv_init this]
    show "\<forall>r \<in> set (store (run_ops init xs)). (pr_url r \<noteq> None) = (status r = ''pr_raised'')"
      by (simp add: inv_def url_iff_raised_def)
  qed
qed

theorem pr_url_and_pr_raised_witness:
  "all_timely init raise_ops
   \<and> map status (store (run_ops init raise_ops)) = [''pr_raised'']
   \<and> map pr_url (store (run_ops init raise_ops)) = [Some ''https://github.com/o/r/pull/1'']
   \<and> list_all (\<lambda>r. (pr_url r \<noteq> None) = (status r = ''pr_raised'')) (store (run_ops init raise_ops))
   \<and> list_all (\<lambda>r. status r \<noteq> ''pr_raised'' \<or> pr_url r \<noteq> None)
        (store (run_ops init raised_then_approved_ops))
   \<and> pr_url (store (run_ops init raise_ops) ! 0) \<noteq> None
   \<and> pr_url (store (run_ops (run_ops init raise_ops) [Handle approve None 5 ''a'']) ! 0) \<noteq> None"
proof -
  from pr_url_and_pr_raised [of raise_ops init] raise_timely
  have a: "list_all (\<lambda>r. (pr_url r \<noteq> None) = (status r = ''pr_raised'')) (store (run_ops init raise_ops))"
    by (simp add: list_all_iff)
  from pr_url_and_pr_raised [of raised_then_approved_ops init]
  have b: "list_all (\<lambda>r. status r \<noteq> ''pr_raised'' \<or> pr_url r \<noteq> None)
            (store (run_ops init raised_then_approved_ops))"
    by (auto simp: list_all_iff)
  have len: "0 < length (store (run_ops init raise_ops))"
    using raise_store by (metis length_greater_0_conv list.map_disc_iff list.simps(3))
  have set0: "pr_url (store (run_ops init raise_ops) ! 0) \<noteq> None"
    using raise_store len by (metis nth_map nth_Cons_0 option.distinct(1))
  from pr_url_and_pr_raised [of "[Handle approve None 5 ''a'']" "run_ops init raise_ops"] len set0
  have c: "pr_url (store (run_ops (run_ops init raise_ops) [Handle approve None 5 ''a'']) ! 0) \<noteq> None"
    by blast
  from a b c set0 raise_timely raise_store show ?thesis by simp
qed

end
